theory Spec2Isabelle
  imports Main
begin

section \<open>Errors\<close>

text \<open>
  Every \<open>throw\<close> of the modelled code is a value of this type. \<open>TypeError\<close> is what
  JavaScript raises when a property of \<open>undefined\<close> is read, as happens when a per-server
  table is indexed out of range. \<open>TransportError\<close> carries the \<open>error.code\<close> of the
  mail-transport primitive. \<open>RateLimitExceeded\<close> carries the retry count of the message
  \<open>Rate limit exceeded after n retries\<close>. \<open>UndefinedThrown\<close> is \<open>throw lastError\<close> with
  no error recorded.
\<close>

datatype transport_code = EAUTH | ENOTFOUND | ECONNREFUSED | ETIMEDOUT | ECONNECTION | EOTHER

datatype error =
    InvalidAddress
  | NoAvailableServers
  | RateLimitExceeded nat
  | TypeError
  | TransportError transport_code
  | NoItemsAvailable
  | NoValidConfigurations
  | UndefinedThrown

section \<open>Per-server health (SMTPManager.smtpHealth)\<close>

text \<open>
  One record per server, as built by the constructor of \<open>SMTPManager\<close>. Dates are
  millisecond clock readings; \<open>null\<close> is \<open>None\<close>.
\<close>

record ServerHealth =
  consecutive_failures :: nat
  last_success :: "int option"
  last_failure :: "int option"
  is_healthy :: bool
  response_times :: "int list"

definition initialHealth :: ServerHealth where
  "initialHealth =
     \<lparr> consecutive_failures = 0, last_success = None, last_failure = None,
       is_healthy = True, response_times = [] \<rparr>"

text \<open>
  The body of \<open>markSmtpHealthy\<close> on the record it mutates. \<open>if (responseTime)\<close> is
  JavaScript truthiness: neither \<open>null\<close> nor \<open>0\<close>; \<open>shift()\<close> drops the oldest sample.
\<close>

definition healthyUpdate :: "int \<Rightarrow> int option \<Rightarrow> ServerHealth \<Rightarrow> ServerHealth" where
  "healthyUpdate now responseTime health =
     (let h1 = health\<lparr> consecutive_failures := 0, last_success := Some now, is_healthy := True \<rparr>
      in case responseTime of
           None \<Rightarrow> h1
         | Some rt \<Rightarrow>
             if rt = 0 then h1
             else
               (let pushed = response_times h1 @ [rt]
                in h1\<lparr> response_times := (if length pushed > 10 then tl pushed else pushed) \<rparr>))"

text \<open>The body of \<open>markSmtpUnhealthy\<close> on the record it mutates.\<close>

definition unhealthyUpdate :: "int \<Rightarrow> ServerHealth \<Rightarrow> ServerHealth" where
  "unhealthyUpdate now health =
     (let h1 = health\<lparr> consecutive_failures := consecutive_failures health + 1,
                       last_failure := Some now \<rparr>
      in if consecutive_failures h1 \<ge> 3 then h1\<lparr> is_healthy := False \<rparr> else h1)"

section \<open>Per-server rate-limit state (SMTPManager.perSmtpRateLimiting)\<close>

text \<open>
  Counters and ceilings are counts of emails, hence naturals; clock readings and durations
  are integers (milliseconds). \<open>cooldownStartTime\<close> is \<open>null\<close> outside a cooldown.
\<close>

record RateLimitState =
  emailsSentInCurrentMinute :: nat
  currentMinuteStart :: int
  isLimited :: bool
  isCoolingDown :: bool
  cooldownStartTime :: "int option"
  cooldownDuration :: int
  emailsPerMinute :: nat
  lastEmailTime :: int
  consecutiveLimitHits :: nat

text \<open>
  The settings the coordinator reads: the part of \<open>config.js\<close> it uses
  (\<open>rotation_random\<close> is \<open>config.smtp.rotation.strategy === "random"\<close>) and the
  \<open>options\<close> of its constructor. A numeric setting that is absent is \<open>None\<close>;
  JavaScript's \<open>x || d\<close> replaces an absent or zero \<open>x\<close> by \<open>d\<close>.
\<close>

record Config =
  rateLimit_enabled :: bool
  rateLimit_emailsPerMinute :: "nat option"
  rateLimit_cooldownPeriod :: "nat option"
  rotation_enabled :: bool
  rotation_random :: bool
  options_maxRetries :: "nat option"
  options_retryDelay :: "nat option"

definition orDefault :: "nat option \<Rightarrow> nat \<Rightarrow> nat" where
  "orDefault x d = (case x of None \<Rightarrow> d | Some v \<Rightarrow> if v = 0 then d else v)"

definition initialRateLimit :: "Config \<Rightarrow> int \<Rightarrow> RateLimitState" where
  "initialRateLimit cfg now =
     \<lparr> emailsSentInCurrentMinute = 0,
       currentMinuteStart = now,
       isLimited = False,
       isCoolingDown = False,
       cooldownStartTime = None,
       cooldownDuration = int (orDefault (rateLimit_cooldownPeriod cfg) 60) * 1000,
       emailsPerMinute = orDefault (rateLimit_emailsPerMinute cfg) 30,
       lastEmailTime = 0,
       consecutiveLimitHits = 0 \<rparr>"

text \<open>
  The body of \<open>incrementSmtpRateLimit\<close> inside the mutex:
  \<open>Math.min(currentCount + 1, rateLimit.emailsPerMinute || 30)\<close>.
\<close>

definition incrementUpdate :: "int \<Rightarrow> RateLimitState \<Rightarrow> RateLimitState" where
  "incrementUpdate now rateLimit =
     rateLimit\<lparr> emailsSentInCurrentMinute :=
                   min (emailsSentInCurrentMinute rateLimit + 1)
                       (orDefault (Some (emailsPerMinute rateLimit)) 30),
                 lastEmailTime := now \<rparr>"

text \<open>The rollback in the \<open>catch\<close> block of \<open>sendMail\<close>, inside the mutex.\<close>

definition rollbackUpdate :: "RateLimitState \<Rightarrow> RateLimitState" where
  "rollbackUpdate rateLimit =
     (if emailsSentInCurrentMinute rateLimit > 0
      then rateLimit\<lparr> emailsSentInCurrentMinute := emailsSentInCurrentMinute rateLimit - 1 \<rparr>
      else rateLimit)"

text \<open>The body of \<open>_resetRateLimitCounter\<close>.\<close>

definition resetUpdate :: "int \<Rightarrow> RateLimitState \<Rightarrow> RateLimitState" where
  "resetUpdate now rateLimit =
     rateLimit\<lparr> emailsSentInCurrentMinute := 0, currentMinuteStart := now, isLimited := False \<rparr>"

section \<open>The coordinator's tables (SMTPManager)\<close>

record ServerConfig =
  host :: string
  priority :: int

text \<open>
  The mutable tables of one \<open>SMTPManager\<close>. \<open>cooldownTimers\<close> holds the keys of the
  timer map (the servers with a scheduled release); \<open>clock\<close> is what \<open>Date.now()\<close>
  returns; \<open>currentSmtpIndex\<close> and \<open>emailCounter\<close> are the \<open>atomicCounters\<close>;
  \<open>maxRetries\<close> and \<open>retryDelay\<close> are \<open>this.options\<close>.
\<close>

record SMTPManager =
  smtpConfigs :: "ServerConfig list"
  smtpHealth :: "ServerHealth list"
  perSmtpRateLimiting :: "RateLimitState list"
  cooldownTimers :: "nat set"
  rotationEnabled :: bool
  currentSmtpIndex :: nat
  emailCounter :: nat
  clock :: int
  maxRetries :: nat
  retryDelay :: int

text \<open>
  The tables the constructor builds: with rotation enabled one health record and one
  rate-limit record per configured server, otherwise a single one for server 0. In
  \<open>this.options\<close> the spread of the caller's \<open>options\<close> comes last, so a value the
  caller gives stands even when it is 0.
\<close>

definition initialTables :: "Config \<Rightarrow> ServerConfig list \<Rightarrow> int \<Rightarrow> SMTPManager" where
  "initialTables cfg configs now =
     (let n = (if rotation_enabled cfg then length configs else 1)
      in \<lparr> smtpConfigs = configs,
           smtpHealth = replicate n initialHealth,
           perSmtpRateLimiting = replicate n (initialRateLimit cfg now),
           cooldownTimers = {},
           rotationEnabled = rotation_enabled cfg,
           currentSmtpIndex = 0,
           emailCounter = 0,
           clock = now,
           maxRetries = (case options_maxRetries cfg of None \<Rightarrow> 3 | Some n \<Rightarrow> n),
           retryDelay = (case options_retryDelay cfg of None \<Rightarrow> 1000 | Some d \<Rightarrow> int d) \<rparr>)"

text \<open>
  The constructor of \<open>SMTPManager\<close>, given the server list \<open>loadSmtpConfigs\<close> read from
  the environment: it throws when no valid server is configured.
\<close>

definition newSMTPManager :: "Config \<Rightarrow> ServerConfig list \<Rightarrow> int \<Rightarrow> error + SMTPManager" where
  "newSMTPManager cfg configs now =
     (if configs = [] then Inl NoValidConfigurations else Inr (initialTables cfg configs now))"

text \<open>
  In-place mutation of \<open>this.smtpHealth[i]\<close> and \<open>this.perSmtpRateLimiting[i]\<close>. The
  callers below test the index first: reading a field of \<open>undefined\<close> throws.
\<close>

definition modifyHealth :: "nat \<Rightarrow> (ServerHealth \<Rightarrow> ServerHealth) \<Rightarrow> SMTPManager \<Rightarrow> SMTPManager" where
  "modifyHealth i f s = s\<lparr> smtpHealth := (smtpHealth s)[i := f (smtpHealth s ! i)] \<rparr>"

definition modifyRate :: "nat \<Rightarrow> (RateLimitState \<Rightarrow> RateLimitState) \<Rightarrow> SMTPManager \<Rightarrow> SMTPManager" where
  "modifyRate i f s =
     s\<lparr> perSmtpRateLimiting := (perSmtpRateLimiting s)[i := f (perSmtpRateLimiting s ! i)] \<rparr>"

definition markSmtpHealthy :: "nat \<Rightarrow> int option \<Rightarrow> SMTPManager \<Rightarrow> error + SMTPManager" where
  "markSmtpHealthy smtpIndex responseTime s =
     (if smtpIndex < length (smtpHealth s)
      then Inr (modifyHealth smtpIndex (healthyUpdate (clock s) responseTime) s)
      else Inl TypeError)"

definition markSmtpUnhealthy :: "nat \<Rightarrow> SMTPManager \<Rightarrow> error + SMTPManager" where
  "markSmtpUnhealthy smtpIndex s =
     (if smtpIndex < length (smtpHealth s)
      then Inr (modifyHealth smtpIndex (unhealthyUpdate (clock s)) s)
      else Inl TypeError)"

definition incrementSmtpRateLimit :: "Config \<Rightarrow> nat \<Rightarrow> SMTPManager \<Rightarrow> error + SMTPManager" where
  "incrementSmtpRateLimit cfg smtpIndex s =
     (if \<not> rateLimit_enabled cfg then Inr s
      else if smtpIndex < length (perSmtpRateLimiting s)
      then Inr (modifyRate smtpIndex (incrementUpdate (clock s)) s)
      else Inl TypeError)"

text \<open>The \<open>catch\<close> block of \<open>sendMail\<close>, first statement: the rollback of the counter.\<close>

definition rollbackRateLimit :: "Config \<Rightarrow> nat \<Rightarrow> SMTPManager \<Rightarrow> error + SMTPManager" where
  "rollbackRateLimit cfg smtpIndex s =
     (if \<not> rateLimit_enabled cfg then Inr s
      else if smtpIndex < length (perSmtpRateLimiting s)
      then Inr (modifyRate smtpIndex rollbackUpdate s)
      else Inl TypeError)"

definition resetRateLimitCounter :: "nat \<Rightarrow> SMTPManager \<Rightarrow> error + SMTPManager" where
  "resetRateLimitCounter smtpIndex s =
     (if smtpIndex < length (perSmtpRateLimiting s)
      then Inr (modifyRate smtpIndex (resetUpdate (clock s)) s)
      else Inl TypeError)"

text \<open>
  \<open>_putSMTPIntoCooldown\<close>: flags the server, stamps the start and schedules the release
  timer. \<open>_removeSMTPFromCooldown\<close>: clears the flags, cancels the timer and resets the
  window counter.
\<close>

definition putSMTPIntoCooldown :: "nat \<Rightarrow> SMTPManager \<Rightarrow> error + SMTPManager" where
  "putSMTPIntoCooldown smtpIndex s =
     (if smtpIndex < length (perSmtpRateLimiting s)
      then Inr ((modifyRate smtpIndex
                   (\<lambda>rateLimit. rateLimit\<lparr> isCoolingDown := True,
                                           cooldownStartTime := Some (clock s) \<rparr>) s)
                \<lparr> cooldownTimers := insert smtpIndex (cooldownTimers s) \<rparr>)
      else Inl TypeError)"

definition removeSMTPFromCooldown :: "nat \<Rightarrow> SMTPManager \<Rightarrow> error + SMTPManager" where
  "removeSMTPFromCooldown smtpIndex s =
     (if smtpIndex < length (perSmtpRateLimiting s)
      then resetRateLimitCounter smtpIndex
             ((modifyRate smtpIndex
                 (\<lambda>rateLimit. rateLimit\<lparr> isCoolingDown := False, cooldownStartTime := None,
                                         isLimited := False \<rparr>) s)
              \<lparr> cooldownTimers := cooldownTimers s - {smtpIndex} \<rparr>)
      else Inl TypeError)"

datatype reason = Cooldown | RateLimitReached

record RateLimitCheck =
  allowed :: bool
  waitTime :: int
  reason :: "reason option"

definition checkAllowed :: RateLimitCheck where
  "checkAllowed = \<lparr> allowed = True, waitTime = 0, reason = None \<rparr>"

text \<open>
  \<open>checkSmtpRateLimit\<close>. \<open>null + n\<close> is \<open>n\<close> in JavaScript, hence the \<open>0\<close> for an
  absent \<open>cooldownStartTime\<close>. After a window reset the same record is read again, as the
  code reads through one reference.
\<close>

definition checkSmtpRateLimit ::
    "Config \<Rightarrow> nat \<Rightarrow> SMTPManager \<Rightarrow> error + (RateLimitCheck \<times> SMTPManager)" where
  "checkSmtpRateLimit cfg smtpIndex s =
     (if \<not> rateLimit_enabled cfg then Inr (checkAllowed, s)
      else if \<not> smtpIndex < length (perSmtpRateLimiting s) then Inl TypeError
      else
        (let rateLimit = perSmtpRateLimiting s ! smtpIndex; now = clock s
         in if isCoolingDown rateLimit then
              (let cooldownTimeLeft =
                     (case cooldownStartTime rateLimit of None \<Rightarrow> 0 | Some t \<Rightarrow> t)
                       + cooldownDuration rateLimit - now
               in if cooldownTimeLeft \<le> 0 then
                    (case removeSMTPFromCooldown smtpIndex s of
                       Inl e \<Rightarrow> Inl e
                     | Inr s1 \<Rightarrow> Inr (checkAllowed, s1))
                  else Inr (\<lparr> allowed = False, waitTime = cooldownTimeLeft,
                              reason = Some Cooldown \<rparr>, s))
            else
              (let timeElapsed = now - currentMinuteStart rateLimit;
                   s1 = (if timeElapsed \<ge> 60000
                         then modifyRate smtpIndex (resetUpdate now) s else s);
                   rateLimit1 = perSmtpRateLimiting s1 ! smtpIndex
               in if emailsSentInCurrentMinute rateLimit1 \<ge> emailsPerMinute rateLimit1 then
                    (case putSMTPIntoCooldown smtpIndex s1 of
                       Inl e \<Rightarrow> Inl e
                     | Inr s2 \<Rightarrow> Inr (\<lparr> allowed = False,
                                         waitTime = cooldownDuration rateLimit1,
                                         reason = Some RateLimitReached \<rparr>, s2))
                  else Inr (checkAllowed, s1))))"

section \<open>Histories of the rate-limit table\<close>

text \<open>
  Everything that writes a window counter, as one event each: the increment and the
  rollback of a send, the two timer callbacks the coordinator installs (the 60-second
  interval calling \<open>_resetRateLimitCounter\<close>, the cooldown release calling
  \<open>_removeSMTPFromCooldown\<close>), a rate-limit check, and the passing of time. JavaScript runs
  each of them to completion before the next starts. An event that throws has written
  nothing, so the tables stay as they were.
\<close>

datatype rate_event =
    Increment nat
  | Rollback nat
  | WindowTimer nat
  | CooldownTimer nat
  | Check nat
  | Elapse nat

definition unlessThrown :: "error + 'a \<Rightarrow> 'a \<Rightarrow> 'a" where
  "unlessThrown r s = (case r of Inl e \<Rightarrow> s | Inr s1 \<Rightarrow> s1)"

fun rateStep :: "Config \<Rightarrow> rate_event \<Rightarrow> SMTPManager \<Rightarrow> SMTPManager" where
  "rateStep cfg (Increment i) s = unlessThrown (incrementSmtpRateLimit cfg i s) s"
| "rateStep cfg (Rollback i) s = unlessThrown (rollbackRateLimit cfg i s) s"
| "rateStep cfg (WindowTimer i) s = unlessThrown (resetRateLimitCounter i s) s"
| "rateStep cfg (CooldownTimer i) s =
     (if i \<in> cooldownTimers s then unlessThrown (removeSMTPFromCooldown i s) s else s)"
| "rateStep cfg (Check i) s = unlessThrown (map_sum id snd (checkSmtpRateLimit cfg i s)) s"
| "rateStep cfg (Elapse ms) s = s\<lparr> clock := clock s + int ms \<rparr>"

fun rateRun :: "Config \<Rightarrow> rate_event list \<Rightarrow> SMTPManager \<Rightarrow> SMTPManager" where
  "rateRun cfg [] s = s"
| "rateRun cfg (ev # evs) s = rateRun cfg evs (rateStep cfg ev s)"

text \<open>The invariant on one record, and on the table.\<close>

definition withinCeiling :: "nat \<Rightarrow> RateLimitState \<Rightarrow> bool" where
  "withinCeiling ceiling rateLimit \<longleftrightarrow>
     emailsPerMinute rateLimit = ceiling \<and> emailsSentInCurrentMinute rateLimit \<le> ceiling"

definition tableWithinCeiling :: "nat \<Rightarrow> SMTPManager \<Rightarrow> bool" where
  "tableWithinCeiling ceiling s \<longleftrightarrow> list_all (withinCeiling ceiling) (perSmtpRateLimiting s)"

lemma orDefault_pos: "0 < d \<Longrightarrow> 0 < orDefault x d"
  by (simp add: orDefault_def split: option.splits)

lemma orDefault_Some_pos: "0 < v \<Longrightarrow> orDefault (Some v) d = v"
  by (simp add: orDefault_def)

lemma withinCeiling_increment:
  "0 < c \<Longrightarrow> withinCeiling c r \<Longrightarrow> withinCeiling c (incrementUpdate now r)"
  by (simp add: withinCeiling_def incrementUpdate_def orDefault_Some_pos)

lemma withinCeiling_rollback: "withinCeiling c r \<Longrightarrow> withinCeiling c (rollbackUpdate r)"
  by (auto simp: withinCeiling_def rollbackUpdate_def)

lemma withinCeiling_reset: "withinCeiling c r \<Longrightarrow> withinCeiling c (resetUpdate now r)"
  by (simp add: withinCeiling_def resetUpdate_def)

lemma withinCeiling_flags:
  "withinCeiling c r \<Longrightarrow>
   withinCeiling c (r\<lparr> isCoolingDown := a, cooldownStartTime := b \<rparr>) \<and>
   withinCeiling c (r\<lparr> isCoolingDown := a, cooldownStartTime := b, isLimited := l \<rparr>)"
  by (simp add: withinCeiling_def)

lemma table_modifyRate:
  assumes "tableWithinCeiling c s" and "\<And>r. withinCeiling c r \<Longrightarrow> withinCeiling c (f r)"
  shows "tableWithinCeiling c (modifyRate i f s)"
proof (cases "i < length (perSmtpRateLimiting s)")
  case True
  have all: "\<forall>j < length (perSmtpRateLimiting s). withinCeiling c (perSmtpRateLimiting s ! j)"
    using assms(1) by (simp add: tableWithinCeiling_def list_all_length)
  then have "\<forall>j < length (perSmtpRateLimiting s).
               withinCeiling c ((perSmtpRateLimiting s)[i := f (perSmtpRateLimiting s ! i)] ! j)"
    using assms(2) True by (auto simp: nth_list_update)
  then show ?thesis
    by (simp add: tableWithinCeiling_def list_all_length modifyRate_def)
next
  case False
  then have "length (perSmtpRateLimiting s) \<le> i" by simp
  then show ?thesis
    using assms(1) by (simp add: tableWithinCeiling_def modifyRate_def list_update_beyond)
qed

lemma table_other_fields:
  "tableWithinCeiling c (s\<lparr> cooldownTimers := t \<rparr>) = tableWithinCeiling c s"
  "tableWithinCeiling c (s\<lparr> clock := k \<rparr>) = tableWithinCeiling c s"
  by (simp_all add: tableWithinCeiling_def)

lemma table_increment:
  "0 < c \<Longrightarrow> tableWithinCeiling c s \<Longrightarrow> incrementSmtpRateLimit cfg i s = Inr s1 \<Longrightarrow>
   tableWithinCeiling c s1"
  by (auto simp: incrementSmtpRateLimit_def split: if_splits
           intro!: table_modifyRate withinCeiling_increment)

lemma table_rollback:
  "tableWithinCeiling c s \<Longrightarrow> rollbackRateLimit cfg i s = Inr s1 \<Longrightarrow> tableWithinCeiling c s1"
  by (auto simp: rollbackRateLimit_def split: if_splits
           intro!: table_modifyRate withinCeiling_rollback)

lemma table_reset:
  "tableWithinCeiling c s \<Longrightarrow> resetRateLimitCounter i s = Inr s1 \<Longrightarrow> tableWithinCeiling c s1"
  by (auto simp: resetRateLimitCounter_def split: if_splits
           intro!: table_modifyRate withinCeiling_reset)

lemma table_put:
  "tableWithinCeiling c s \<Longrightarrow> putSMTPIntoCooldown i s = Inr s1 \<Longrightarrow> tableWithinCeiling c s1"
  by (auto simp: putSMTPIntoCooldown_def table_other_fields withinCeiling_flags
           split: if_splits intro!: table_modifyRate)

lemma table_remove:
  "tableWithinCeiling c s \<Longrightarrow> removeSMTPFromCooldown i s = Inr s1 \<Longrightarrow> tableWithinCeiling c s1"
  by (auto simp: removeSMTPFromCooldown_def table_other_fields withinCeiling_flags
           split: if_splits intro!: table_modifyRate elim!: table_reset [rotated])

lemma table_check:
  assumes "tableWithinCeiling c s" and "checkSmtpRateLimit cfg i s = Inr (r, s1)"
  shows "tableWithinCeiling c s1"
proof -
  have reset: "tableWithinCeiling c (modifyRate i (resetUpdate (clock s)) s)"
    using assms(1) by (intro table_modifyRate withinCeiling_reset)
  show ?thesis
    using assms reset
    by (auto simp: checkSmtpRateLimit_def Let_def
             split: if_splits sum.splits dest: table_remove table_put)
qed

lemma table_step: "0 < c \<Longrightarrow> tableWithinCeiling c s \<Longrightarrow> tableWithinCeiling c (rateStep cfg ev s)"
proof (cases ev)
  case (Check i)
  assume "tableWithinCeiling c s"
  then show ?thesis
    using Check table_check [of c s cfg i]
    by (cases "checkSmtpRateLimit cfg i s") (auto simp: unlessThrown_def)
qed (auto simp: unlessThrown_def table_other_fields split: sum.splits
          dest: table_increment table_rollback table_reset table_remove)

lemma table_run: "0 < c \<Longrightarrow> tableWithinCeiling c s \<Longrightarrow> tableWithinCeiling c (rateRun cfg evs s)"
  by (induction evs arbitrary: s) (auto intro: table_step)

lemma table_initial:
  "newSMTPManager cfg configs now = Inr s0 \<Longrightarrow>
   tableWithinCeiling (orDefault (rateLimit_emailsPerMinute cfg) 30) s0"
  by (auto simp: tableWithinCeiling_def newSMTPManager_def initialTables_def Let_def list_all_iff
                 withinCeiling_def initialRateLimit_def split: if_splits)

text \<open>
  Claim C1. For every server index and every configured per-minute ceiling, the window
  counter \<open>emailsSentInCurrentMinute\<close> never exceeds \<open>emailsPerMinute\<close>: the bound holds for
  the tables the constructor builds and after every history of the events that write a
  counter (increment, failed-send rollback, window reset, cooldown release, rate-limit
  check), in any order and at any times. The ceiling itself stays the configured one
  (30 when none, or zero, is configured).
\<close>

theorem counter_never_exceeds_ceiling:
  assumes "newSMTPManager cfg configs now = Inr s0"
      and "s = rateRun cfg evs s0"
      and "i < length (perSmtpRateLimiting s)"
  shows "emailsPerMinute (perSmtpRateLimiting s ! i) = orDefault (rateLimit_emailsPerMinute cfg) 30
       \<and> emailsSentInCurrentMinute (perSmtpRateLimiting s ! i)
           \<le> emailsPerMinute (perSmtpRateLimiting s ! i)"
proof -
  have "tableWithinCeiling (orDefault (rateLimit_emailsPerMinute cfg) 30) s"
    unfolding assms(2) by (intro table_run table_initial [OF assms(1)] orDefault_pos) simp
  then show ?thesis
    using assms(3) by (simp add: tableWithinCeiling_def list_all_length withinCeiling_def)
qed


definition exampleConfig :: Config where
  "exampleConfig =
     \<lparr> rateLimit_enabled = True, rateLimit_emailsPerMinute = Some 2,
       rateLimit_cooldownPeriod = Some 60, rotation_enabled = True, rotation_random = False,
       options_maxRetries = None, options_retryDelay = None \<rparr>"

definition exampleServers :: "ServerConfig list" where
  "exampleServers =
     [\<lparr> host = ''mx1.example.org'', priority = 1 \<rparr>,
      \<lparr> host = ''mx2.example.org'', priority = 2 \<rparr>,
      \<lparr> host = ''mx3.example.org'', priority = 1 \<rparr>]"

lemmas rate_defs =
  newSMTPManager_def initialTables_def initialRateLimit_def initialHealth_def orDefault_def unlessThrown_def
  incrementSmtpRateLimit_def rollbackRateLimit_def resetRateLimitCounter_def
  putSMTPIntoCooldown_def removeSMTPFromCooldown_def checkSmtpRateLimit_def checkAllowed_def
  modifyRate_def incrementUpdate_def rollbackUpdate_def resetUpdate_def Let_def

text \<open>
  The theorem at a history of ten events on three servers with ceiling 2, where server 0
  is incremented at its ceiling.
\<close>

theorem counter_never_exceeds_ceiling_witness:
  "emailsSentInCurrentMinute
     (perSmtpRateLimiting
        (rateRun exampleConfig
           [Check 0, Increment 0, Check 0, Increment 0, Increment 0, Rollback 0, Check 1,
            Elapse 60000, Check 0, WindowTimer 1]
           (initialTables exampleConfig exampleServers 0)) ! 0)
   \<le> emailsPerMinute
        (perSmtpRateLimiting
           (rateRun exampleConfig
              [Check 0, Increment 0, Check 0, Increment 0, Increment 0, Rollback 0, Check 1,
               Elapse 60000, Check 0, WindowTimer 1]
              (initialTables exampleConfig exampleServers 0)) ! 0)"
proof -
  have len: "0 < length (perSmtpRateLimiting
        (rateRun exampleConfig
           [Check 0, Increment 0, Check 0, Increment 0, Increment 0, Rollback 0, Check 1,
            Elapse 60000, Check 0, WindowTimer 1]
           (initialTables exampleConfig exampleServers 0)))"
    by (simp add: exampleConfig_def exampleServers_def rate_defs)
  have new: "newSMTPManager exampleConfig exampleServers 0
               = Inr (initialTables exampleConfig exampleServers 0)"
    by (simp add: newSMTPManager_def exampleServers_def)
  show ?thesis
    using counter_never_exceeds_ceiling [OF new refl len] by simp
qed

section \<open>The rollback of a failed send\<close>

text \<open>
  Below the ceiling the rollback undoes the increment: increment then rollback leaves the
  counter as it was.
\<close>

lemma rollback_below_ceiling:
  assumes "emailsSentInCurrentMinute r < emailsPerMinute r"
  shows "emailsSentInCurrentMinute (rollbackUpdate (incrementUpdate now r))
           = emailsSentInCurrentMinute r"
  using assms by (simp add: rollbackUpdate_def incrementUpdate_def orDefault_def)

text \<open>
  Claim C2 (rollback law: a send that increments the counter and then fails leaves it
  net-unchanged, for every starting value, the ceiling included). At the ceiling the code
  does otherwise. With ceiling 2, one send has incremented server 0 to 1; two more sends
  pass their check at 1, and the first of them increments to 2. The second one's increment
  is capped (the counter stays 2), its transmission fails, and its rollback leaves 1: one
  less than before its increment.
\<close>

theorem rollback_at_ceiling_loses_one:
  "emailsSentInCurrentMinute
     (perSmtpRateLimiting
        (rateRun exampleConfig [Check 0, Increment 0, Check 0, Check 0, Increment 0]
           (initialTables exampleConfig exampleServers 0)) ! 0) = 2
   \<and> emailsPerMinute
     (perSmtpRateLimiting
        (rateRun exampleConfig [Check 0, Increment 0, Check 0, Check 0, Increment 0]
           (initialTables exampleConfig exampleServers 0)) ! 0) = 2
   \<and> emailsSentInCurrentMinute
     (perSmtpRateLimiting
        (rateRun exampleConfig
           [Check 0, Increment 0, Check 0, Check 0, Increment 0, Increment 0, Rollback 0]
           (initialTables exampleConfig exampleServers 0)) ! 0) = 1"
  by (simp add: exampleConfig_def exampleServers_def rate_defs)

section \<open>Histories of the health table\<close>

datatype health_event = Succeeded nat "int option" | Failed nat

fun healthStep :: "health_event \<Rightarrow> SMTPManager \<Rightarrow> SMTPManager" where
  "healthStep (Succeeded i responseTime) s = unlessThrown (markSmtpHealthy i responseTime s) s"
| "healthStep (Failed i) s = unlessThrown (markSmtpUnhealthy i s) s"

fun healthRun :: "health_event list \<Rightarrow> SMTPManager \<Rightarrow> SMTPManager" where
  "healthRun [] s = s"
| "healthRun (ev # evs) s = healthRun evs (healthStep ev s)"

definition healthConsistent :: "ServerHealth \<Rightarrow> bool" where
  "healthConsistent h \<longleftrightarrow> (is_healthy h \<longleftrightarrow> consecutive_failures h < 3)"

lemma healthConsistent_updates:
  "healthConsistent (healthyUpdate now rt h)"
  "healthConsistent h \<Longrightarrow> healthConsistent (unhealthyUpdate now h)"
  by (auto simp: healthConsistent_def healthyUpdate_def unhealthyUpdate_def Let_def
           split: option.splits)

lemma healthConsistent_modify:
  assumes "list_all healthConsistent (smtpHealth s)"
      and "\<And>h. healthConsistent h \<Longrightarrow> healthConsistent (f h)"
      and "i < length (smtpHealth s)"
  shows "list_all healthConsistent (smtpHealth (modifyHealth i f s))"
proof -
  have "\<forall>j < length (smtpHealth s). healthConsistent (smtpHealth s ! j)"
    using assms(1) by (simp add: list_all_length)
  then have "\<forall>j < length (smtpHealth s).
               healthConsistent ((smtpHealth s)[i := f (smtpHealth s ! i)] ! j)"
    using assms(2,3) by (auto simp: nth_list_update)
  then show ?thesis
    by (simp add: list_all_length modifyHealth_def)
qed

lemma healthConsistent_step:
  "list_all healthConsistent (smtpHealth s) \<Longrightarrow>
   list_all healthConsistent (smtpHealth (healthStep ev s))"
  by (cases ev)
     (auto simp: unlessThrown_def markSmtpHealthy_def markSmtpUnhealthy_def
           intro!: healthConsistent_modify healthConsistent_updates)

lemma healthConsistent_run:
  "list_all healthConsistent (smtpHealth s) \<Longrightarrow>
   list_all healthConsistent (smtpHealth (healthRun evs s))"
  by (induction evs arbitrary: s) (auto intro: healthConsistent_step)

lemma healthConsistent_initial:
  "newSMTPManager cfg configs now = Inr s0 \<Longrightarrow> list_all healthConsistent (smtpHealth s0)"
  by (auto simp: newSMTPManager_def initialTables_def Let_def list_all_iff healthConsistent_def
                 initialHealth_def split: if_splits)

text \<open>
  Claim C5. In every state the health table can reach, \<open>markSmtpUnhealthy\<close> adds one to the
  consecutive-failure count and leaves the server healthy exactly when it had fewer than
  2 prior consecutive failures; a healthy server flips to unhealthy exactly when the count
  reaches 3. \<open>markSmtpHealthy\<close> sets \<open>is_healthy\<close> and resets the count to 0.
\<close>

theorem health_flips_at_three_failures:
  assumes "newSMTPManager cfg configs now = Inr s0"
      and "s = healthRun evs s0"
      and "smtpIndex < length (smtpHealth s)"
  shows "(\<exists>s1. markSmtpUnhealthy smtpIndex s = Inr s1
            \<and> consecutive_failures (smtpHealth s1 ! smtpIndex)
                = consecutive_failures (smtpHealth s ! smtpIndex) + 1
            \<and> (is_healthy (smtpHealth s1 ! smtpIndex)
                 \<longleftrightarrow> consecutive_failures (smtpHealth s ! smtpIndex) < 2)
            \<and> (is_healthy (smtpHealth s ! smtpIndex) \<and> \<not> is_healthy (smtpHealth s1 ! smtpIndex)
                 \<longleftrightarrow> consecutive_failures (smtpHealth s1 ! smtpIndex) = 3))
       \<and> (\<exists>s2. markSmtpHealthy smtpIndex responseTime s = Inr s2
            \<and> is_healthy (smtpHealth s2 ! smtpIndex)
            \<and> consecutive_failures (smtpHealth s2 ! smtpIndex) = 0)"
proof -
  have "list_all healthConsistent (smtpHealth s)"
    unfolding assms(2) by (intro healthConsistent_run healthConsistent_initial [OF assms(1)])
  then have inv: "healthConsistent (smtpHealth s ! smtpIndex)"
    using assms(3) by (simp add: list_all_length)
  have down: "\<exists>s1. markSmtpUnhealthy smtpIndex s = Inr s1
            \<and> consecutive_failures (smtpHealth s1 ! smtpIndex)
                = consecutive_failures (smtpHealth s ! smtpIndex) + 1
            \<and> (is_healthy (smtpHealth s1 ! smtpIndex)
                 \<longleftrightarrow> consecutive_failures (smtpHealth s ! smtpIndex) < 2)
            \<and> (is_healthy (smtpHealth s ! smtpIndex) \<and> \<not> is_healthy (smtpHealth s1 ! smtpIndex)
                 \<longleftrightarrow> consecutive_failures (smtpHealth s1 ! smtpIndex) = 3)"
    using assms(3) inv
    by (auto simp: markSmtpUnhealthy_def modifyHealth_def unhealthyUpdate_def Let_def
                   healthConsistent_def)
  have up: "\<exists>s2. markSmtpHealthy smtpIndex responseTime s = Inr s2
            \<and> is_healthy (smtpHealth s2 ! smtpIndex)
            \<and> consecutive_failures (smtpHealth s2 ! smtpIndex) = 0"
    using assms(3)
    by (auto simp: markSmtpHealthy_def modifyHealth_def healthyUpdate_def Let_def
             split: option.splits)
  from down up show ?thesis by blast
qed

text \<open>
  The theorem at server 1 after failure, success, failure, failure: the next failure is
  the third in a row.
\<close>

theorem health_flips_at_three_failures_witness:
  "(\<exists>s1. markSmtpUnhealthy 1
            (healthRun [Failed 1, Succeeded 1 (Some 120), Failed 1, Failed 1]
               (initialTables exampleConfig exampleServers 0)) = Inr s1
         \<and> \<not> is_healthy (smtpHealth s1 ! 1)
         \<and> consecutive_failures (smtpHealth s1 ! 1) = 3)
   \<and> (\<exists>s2. markSmtpHealthy 1 None
            (healthRun [Failed 1, Succeeded 1 (Some 120), Failed 1, Failed 1]
               (initialTables exampleConfig exampleServers 0)) = Inr s2
         \<and> is_healthy (smtpHealth s2 ! 1)
         \<and> consecutive_failures (smtpHealth s2 ! 1) = 0)"
proof -
  have len: "1 < length (smtpHealth
               (healthRun [Failed 1, Succeeded 1 (Some 120), Failed 1, Failed 1]
                  (initialTables exampleConfig exampleServers 0)))"
    by (simp add: exampleConfig_def exampleServers_def initialTables_def unlessThrown_def
                  markSmtpHealthy_def markSmtpUnhealthy_def modifyHealth_def)
  have two: "consecutive_failures (smtpHealth
               (healthRun [Failed 1, Succeeded 1 (Some 120), Failed 1, Failed 1]
                  (initialTables exampleConfig exampleServers 0)) ! 1) = 2"
    by (simp add: exampleConfig_def exampleServers_def initialTables_def unlessThrown_def
                  markSmtpHealthy_def markSmtpUnhealthy_def modifyHealth_def
                  healthyUpdate_def unhealthyUpdate_def initialHealth_def Let_def)
  have new: "newSMTPManager exampleConfig exampleServers 0
               = Inr (initialTables exampleConfig exampleServers 0)"
    by (simp add: newSMTPManager_def exampleServers_def)
  show ?thesis
    using health_flips_at_three_failures [OF new refl len, of None] two by auto
qed

section \<open>Server selection (SMTPManager.getAvailableSMTPs, getNextSmtpIndex)\<close>

text \<open>One candidate of \<open>getAvailableSMTPs\<close>: a server's index with its three records.\<close>

record SmtpEntry =
  config :: ServerConfig
  index :: nat
  health :: ServerHealth
  rateLimit :: RateLimitState

definition smtpEntry :: "SMTPManager \<Rightarrow> nat \<Rightarrow> SmtpEntry" where
  "smtpEntry s i =
     \<lparr> config = smtpConfigs s ! i, index = i, health = smtpHealth s ! i,
       rateLimit = perSmtpRateLimiting s ! i \<rparr>"

text \<open>
  \<open>Array.prototype.sort\<close> with a comparator function: the sort is stable, and the
  comparator puts \<open>a\<close> before \<open>b\<close> when it returns a negative number. The model inserts
  from the right, each element in front of the first one it does not have to follow.
\<close>

fun insertBy :: "('a \<Rightarrow> 'a \<Rightarrow> int) \<Rightarrow> 'a \<Rightarrow> 'a list \<Rightarrow> 'a list" where
  "insertBy cmp a [] = [a]"
| "insertBy cmp a (b # bs) = (if cmp a b \<le> 0 then a # b # bs else b # insertBy cmp a bs)"

definition sortBy :: "('a \<Rightarrow> 'a \<Rightarrow> int) \<Rightarrow> 'a list \<Rightarrow> 'a list" where
  "sortBy cmp xs = foldr (insertBy cmp) xs []"

text \<open>The comparator of \<open>getAvailableSMTPs\<close>.\<close>

definition comparePriority :: "SmtpEntry \<Rightarrow> SmtpEntry \<Rightarrow> int" where
  "comparePriority a b =
     (if priority (config a) \<noteq> priority (config b)
      then priority (config b) - priority (config a)
      else int (consecutive_failures (health a)) - int (consecutive_failures (health b)))"

text \<open>
  \<open>getAvailableSMTPs\<close>. Reading a field of a record that is missing from a table throws;
  the constructor builds tables that cover every index considered here.
\<close>

definition getAvailableSMTPs :: "Config \<Rightarrow> SMTPManager \<Rightarrow> error + SmtpEntry list" where
  "getAvailableSMTPs cfg s =
     (let smtpIndices = (if rotationEnabled s then [0 ..< length (smtpConfigs s)] else [0])
      in if \<not> list_all (\<lambda>i. i < length (smtpConfigs s) \<and> i < length (smtpHealth s)
                                 \<and> i < length (perSmtpRateLimiting s)) smtpIndices
         then Inl TypeError
         else
           (let allSmtps = map (smtpEntry s) smtpIndices;
                availableSmtps =
                  filter (\<lambda>e. if \<not> rateLimit_enabled cfg then is_healthy (health e)
                               else is_healthy (health e) \<and> \<not> isCoolingDown (rateLimit e)
                                    \<and> \<not> isLimited (rateLimit e)) allSmtps
            in if availableSmtps = [] \<and> filter (\<lambda>e. is_healthy (health e)) allSmtps \<noteq> []
               then Inr (filter (\<lambda>e. is_healthy (health e)) allSmtps)
               else Inr (sortBy comparePriority availableSmtps)))"

text \<open>
  The order the claim describes: descending priority, ties by ascending consecutive-failure
  count, between every two positions of the list.
\<close>

definition priorityOrdered :: "SmtpEntry list \<Rightarrow> bool" where
  "priorityOrdered es \<longleftrightarrow> sorted_wrt (\<lambda>a b. comparePriority a b \<le> 0) es"

lemma set_insertBy: "set (insertBy cmp a bs) = insert a (set bs)"
  by (induction bs) auto

lemma set_sortBy: "set (sortBy cmp xs) = set xs"
  by (induction xs) (simp_all add: sortBy_def set_insertBy)

lemma comparePriority_trans:
  "comparePriority a b \<le> 0 \<Longrightarrow> comparePriority b c \<le> 0 \<Longrightarrow> comparePriority a c \<le> 0"
  by (auto simp: comparePriority_def split: if_splits)

lemma comparePriority_total: "comparePriority a b \<le> 0 \<or> comparePriority b a \<le> 0"
  by (auto simp: comparePriority_def)

lemma ordered_insertBy:
  "priorityOrdered bs \<Longrightarrow> priorityOrdered (insertBy comparePriority a bs)"
proof (induction bs)
  case Nil
  then show ?case by (simp add: priorityOrdered_def)
next
  case (Cons b bs)
  show ?case
  proof (cases "comparePriority a b \<le> 0")
    case True
    then show ?thesis
      using Cons.prems by (auto simp: priorityOrdered_def intro: comparePriority_trans)
  next
    case False
    then have "comparePriority b a \<le> 0"
      using comparePriority_total [of a b] by simp
    then show ?thesis
      using False Cons by (auto simp: priorityOrdered_def set_insertBy)
  qed
qed

lemma ordered_sortBy: "priorityOrdered (sortBy comparePriority xs)"
proof (induction xs)
  case Nil
  show ?case by (simp add: sortBy_def priorityOrdered_def)
next
  case (Cons x xs)
  then show ?case
    using ordered_insertBy [of "sortBy comparePriority xs" x] by (simp add: sortBy_def)
qed

text \<open>
  What \<open>getAvailableSMTPs\<close> does guarantee: every returned server is healthy, on both
  paths, and the list of the normal path is in priority order.
\<close>

lemma available_only_healthy:
  "getAvailableSMTPs cfg s = Inr es \<Longrightarrow> e \<in> set es \<Longrightarrow> is_healthy (health e)"
  by (auto simp: getAvailableSMTPs_def Let_def set_sortBy split: if_splits)

lemma available_ordered_unless_fallback:
  assumes "getAvailableSMTPs cfg s = Inr es"
      and "e \<in> set es"
      and "rateLimit_enabled cfg \<longrightarrow> \<not> isCoolingDown (rateLimit e) \<and> \<not> isLimited (rateLimit e)"
  shows "priorityOrdered es"
  using assms
  by (auto simp: getAvailableSMTPs_def Let_def ordered_sortBy filter_empty_conv
           split: if_splits)

text \<open>
  Three healthy servers of priorities 1, 2, 1, each driven to its ceiling of 2 and then
  checked, so that all three are cooling down.
\<close>

definition allCoolingDown :: SMTPManager where
  "allCoolingDown =
     rateRun exampleConfig
       [Increment 0, Increment 0, Check 0, Increment 1, Increment 1, Check 1,
        Increment 2, Increment 2, Check 2]
       (initialTables exampleConfig exampleServers 0)"

text \<open>
  Claim C6 (the candidate list holds healthy servers only and is sorted by descending
  priority, ties by ascending failure count, on the fallback path as on the normal path).
  On the fallback path the code returns the healthy servers as they stand in the table:
  with every server cooling down the list is servers 0, 1, 2 with priorities 1, 2, 1,
  which is not in priority order; sorted, it would be 1, 0, 2.
\<close>

theorem fallback_list_not_sorted:
  "map_sum id (map index) (getAvailableSMTPs exampleConfig allCoolingDown) = Inr [0, 1, 2]
   \<and> map_sum id (map (\<lambda>e. priority (config e))) (getAvailableSMTPs exampleConfig allCoolingDown)
       = Inr [1, 2, 1]
   \<and> map_sum id priorityOrdered (getAvailableSMTPs exampleConfig allCoolingDown) = Inr False
   \<and> map index (sortBy comparePriority (map (smtpEntry allCoolingDown) [0, 1, 2])) = [1, 0, 2]"
  by (simp add: allCoolingDown_def exampleConfig_def exampleServers_def rate_defs
                getAvailableSMTPs_def smtpEntry_def sortBy_def comparePriority_def
                priorityOrdered_def upt_rec)

section \<open>AsyncMutex\<close>

text \<open>
  The mutex is a flag and a queue of waiting \<open>acquire\<close> calls. A queue entry is the object
  one \<open>acquire\<close> call creates; the model names it by the number of that call. \<open>granted\<close>
  and \<open>timedOut\<close> list, oldest first, the calls whose promise was resolved and rejected;
  \<open>acquires\<close> counts the calls made so far.
\<close>

record AsyncMutex =
  locked :: bool
  queue :: "nat list"
  acquires :: nat
  granted :: "nat list"
  timedOut :: "nat list"

definition newAsyncMutex :: AsyncMutex where
  "newAsyncMutex = \<lparr> locked = False, queue = [], acquires = 0, granted = [], timedOut = [] \<rparr>"

text \<open>
  The executor of \<open>acquire\<close>: take the free lock at once, or push an entry (its timer
  armed).
\<close>

definition acquire :: "AsyncMutex \<Rightarrow> AsyncMutex" where
  "acquire m =
     (let entry = acquires m; m1 = m\<lparr> acquires := acquires m + 1 \<rparr>
      in if \<not> locked m1 then m1\<lparr> locked := True, granted := granted m1 @ [entry] \<rparr>
         else m1\<lparr> queue := queue m1 @ [entry] \<rparr>)"

text \<open>
  The timer callback of an entry: \<open>indexOf\<close>, and when the entry is still queued,
  \<open>splice\<close> and reject.
\<close>

definition acquireTimeout :: "nat \<Rightarrow> AsyncMutex \<Rightarrow> AsyncMutex" where
  "acquireTimeout entry m =
     (if entry \<in> set (queue m)
      then m\<lparr> queue := remove1 entry (queue m), timedOut := timedOut m @ [entry] \<rparr>
      else m)"

text \<open>\<open>release\<close>: \<open>shift\<close> the queue and resolve that entry, or clear the flag.\<close>

definition release :: "AsyncMutex \<Rightarrow> AsyncMutex" where
  "release m =
     (case queue m of
        next # rest \<Rightarrow> m\<lparr> queue := rest, granted := granted m @ [next] \<rparr>
      | [] \<Rightarrow> m\<lparr> locked := False \<rparr>)"

datatype mutex_event = Acquire | Release | TimerFires nat

fun mutexStep :: "mutex_event \<Rightarrow> AsyncMutex \<Rightarrow> AsyncMutex" where
  "mutexStep Acquire m = acquire m"
| "mutexStep Release m = release m"
| "mutexStep (TimerFires entry) m = acquireTimeout entry m"

fun mutexRun :: "mutex_event list \<Rightarrow> AsyncMutex \<Rightarrow> AsyncMutex" where
  "mutexRun [] m = m"
| "mutexRun (ev # evs) m = mutexRun evs (mutexStep ev m)"

text \<open>
  What every reachable mutex satisfies: waiters exist only while the lock is held; the
  queue holds earlier calls in the order they were made; an entry is in at most one of
  queue, granted and timed out.
\<close>

definition mutexInv :: "AsyncMutex \<Rightarrow> bool" where
  "mutexInv m \<longleftrightarrow>
     (queue m \<noteq> [] \<longrightarrow> locked m)
     \<and> sorted_wrt (<) (queue m)
     \<and> (\<forall>e \<in> set (queue m). e < acquires m)
     \<and> (\<forall>e \<in> set (granted m). e < acquires m)
     \<and> (\<forall>e \<in> set (timedOut m). e < acquires m)
     \<and> set (queue m) \<inter> set (timedOut m) = {}
     \<and> set (granted m) \<inter> set (timedOut m) = {}
     \<and> set (queue m) \<inter> set (granted m) = {}"

lemma mutexInv_new: "mutexInv newAsyncMutex"
  by (simp add: mutexInv_def newAsyncMutex_def)

lemma mutexInv_acquire:
  assumes "mutexInv m"
  shows "mutexInv (acquire m)"
proof (cases "locked m")
  case False
  then have "queue m = []" using assms by (auto simp: mutexInv_def)
  then show ?thesis
    using assms False by (auto simp: mutexInv_def acquire_def Let_def less_Suc_eq)
next
  case True
  then show ?thesis
    using assms
    by (auto simp: mutexInv_def acquire_def Let_def less_Suc_eq sorted_wrt_append)
qed

lemma mutexInv_release:
  assumes "mutexInv m"
  shows "mutexInv (release m)"
proof (cases "queue m")
  case Nil
  then show ?thesis using assms by (simp add: mutexInv_def release_def)
next
  case (Cons e rest)
  then show ?thesis
    using assms by (auto simp: mutexInv_def release_def)
qed

lemma sorted_wrt_remove1: "sorted_wrt P xs \<Longrightarrow> sorted_wrt P (remove1 x xs)"
  by (induction xs) (auto dest: notin_set_remove1)

lemma sorted_less_distinct: "sorted_wrt (<) (xs :: nat list) \<Longrightarrow> distinct xs"
  by (induction xs) auto

lemma mutexInv_timeout:
  assumes "mutexInv m"
  shows "mutexInv (acquireTimeout entry m)"
proof (cases "entry \<in> set (queue m)")
  case False
  then show ?thesis using assms by (simp add: acquireTimeout_def)
next
  case True
  have d: "distinct (queue m)"
    using assms by (simp add: mutexInv_def sorted_less_distinct)
  have sub: "set (remove1 entry (queue m)) = set (queue m) - {entry}"
    using d by simp
  have q: "locked m" using True assms by (auto simp: mutexInv_def)
  show ?thesis
    using assms True q sub
    by (auto simp: mutexInv_def acquireTimeout_def sorted_wrt_remove1)
qed

lemma mutexInv_step: "mutexInv m \<Longrightarrow> mutexInv (mutexStep ev m)"
  by (cases ev) (simp_all add: mutexInv_acquire mutexInv_release mutexInv_timeout)

lemma mutexInv_run: "mutexInv m \<Longrightarrow> mutexInv (mutexRun evs m)"
  by (induction evs arbitrary: m) (simp_all add: mutexInv_step)

lemma timedOut_step: "set (timedOut m) \<subseteq> set (timedOut (mutexStep ev m))"
  by (cases ev) (auto simp: acquire_def release_def acquireTimeout_def Let_def split: list.splits)

lemma timedOut_run: "set (timedOut m) \<subseteq> set (timedOut (mutexRun evs m))"
proof (induction evs arbitrary: m)
  case Nil
  show ?case by simp
next
  case (Cons ev evs)
  show ?case
    using timedOut_step [of m ev] Cons.IH [of "mutexStep ev m"] by auto
qed

text \<open>
  Claim C10. After any sequence of \<open>acquire\<close> calls, \<open>release\<close> calls and timer
  callbacks: \<open>release\<close> with waiters queued resolves the entry at the front, which is the
  longest-waiting one, and the flag is true before and after (it is not written); with no
  waiter it clears the flag and resolves nobody; and an entry rejected by its timeout is
  not granted the lock by anything that happens later.
\<close>

theorem mutex_hand_off:
  assumes "m = mutexRun evs newAsyncMutex"
  shows "(queue m \<noteq> [] \<longrightarrow>
            locked m \<and> locked (release m)
            \<and> granted (release m) = granted m @ [hd (queue m)]
            \<and> queue (release m) = tl (queue m)
            \<and> (\<forall>e \<in> set (queue m). hd (queue m) \<le> e))
       \<and> (queue m = [] \<longrightarrow> \<not> locked (release m) \<and> granted (release m) = granted m)
       \<and> (\<forall>e \<in> set (timedOut m). e \<notin> set (granted (mutexRun later m)))"
proof -
  have inv: "mutexInv m"
    unfolding assms by (intro mutexInv_run mutexInv_new)
  have front: "queue m \<noteq> [] \<longrightarrow>
            locked m \<and> locked (release m)
            \<and> granted (release m) = granted m @ [hd (queue m)]
            \<and> queue (release m) = tl (queue m)
            \<and> (\<forall>e \<in> set (queue m). hd (queue m) \<le> e)"
    using inv by (cases "queue m") (auto simp: mutexInv_def release_def)
  have empty: "queue m = [] \<longrightarrow> \<not> locked (release m) \<and> granted (release m) = granted m"
    by (simp add: release_def)
  have "mutexInv (mutexRun later m)"
    using inv by (rule mutexInv_run)
  then have "set (granted (mutexRun later m)) \<inter> set (timedOut (mutexRun later m)) = {}"
    by (simp add: mutexInv_def)
  then have never: "\<forall>e \<in> set (timedOut m). e \<notin> set (granted (mutexRun later m))"
    using timedOut_run [of m later] by auto
  from front empty never show ?thesis by blast
qed

text \<open>
  The theorem after three \<open>acquire\<close> calls and the timeout of the second: \<open>release\<close>
  hands the lock to the third call, and the second is never granted.
\<close>

theorem mutex_hand_off_witness:
  "locked (release (mutexRun [Acquire, Acquire, Acquire, TimerFires 1] newAsyncMutex))
   \<and> granted (release (mutexRun [Acquire, Acquire, Acquire, TimerFires 1] newAsyncMutex)) = [0, 2]
   \<and> 1 \<notin> set (granted (mutexRun [Release, Release, Acquire]
                          (mutexRun [Acquire, Acquire, Acquire, TimerFires 1] newAsyncMutex)))"
proof -
  have q: "queue (mutexRun [Acquire, Acquire, Acquire, TimerFires 1] newAsyncMutex) = [2]"
    and g: "granted (mutexRun [Acquire, Acquire, Acquire, TimerFires 1] newAsyncMutex) = [0]"
    and t: "timedOut (mutexRun [Acquire, Acquire, Acquire, TimerFires 1] newAsyncMutex) = [1]"
    by (simp_all add: newAsyncMutex_def acquire_def acquireTimeout_def Let_def)
  show ?thesis
    using mutex_hand_off [OF refl, of "[Acquire, Acquire, Acquire, TimerFires 1]"
                            "[Release, Release, Acquire]"] q g t
    by simp
qed

section \<open>LRUCache\<close>

text \<open>
  A JavaScript \<open>Map\<close> iterates in insertion order: the model is the list of its entries
  in that order, one per key. \<open>Map.set\<close> on a present key replaces the value where it
  stands; on a new key it appends.
\<close>

definition mapHas :: "'k \<Rightarrow> ('k \<times> 'v) list \<Rightarrow> bool" where
  "mapHas key m \<longleftrightarrow> key \<in> set (map fst m)"

definition mapGet :: "'k \<Rightarrow> ('k \<times> 'v) list \<Rightarrow> 'v option" where
  "mapGet key m = map_of m key"

definition mapDelete :: "'k \<Rightarrow> ('k \<times> 'v) list \<Rightarrow> ('k \<times> 'v) list" where
  "mapDelete key m = filter (\<lambda>entry. fst entry \<noteq> key) m"

definition mapSet :: "'k \<Rightarrow> 'v \<Rightarrow> ('k \<times> 'v) list \<Rightarrow> ('k \<times> 'v) list" where
  "mapSet key val m =
     (if mapHas key m then map (\<lambda>entry. if fst entry = key then (key, val) else entry) m
      else m @ [(key, val)])"

record ('k, 'v) LRUCache =
  maxSize :: nat
  cache :: "('k \<times> 'v) list"
  accessCount :: nat
  cleanupThreshold :: nat

text \<open>
  The constructor. \<open>Math.floor(maxSize * 0.1)\<close> is the integer quotient by 10 for every
  size a cache can have.
\<close>

definition newLRUCache :: "nat \<Rightarrow> ('k, 'v) LRUCache" where
  "newLRUCache capacity =
     \<lparr> maxSize = capacity, cache = [], accessCount = 0, cleanupThreshold = capacity div 10 \<rparr>"

text \<open>\<open>get\<close>: a hit counts the access and, on every fifth one, moves the entry to the end.\<close>

definition lruGet :: "'k \<Rightarrow> ('k, 'v) LRUCache \<Rightarrow> 'v option \<times> ('k, 'v) LRUCache" where
  "lruGet key c =
     (if mapHas key (cache c) then
        (case mapGet key (cache c) of
           None \<Rightarrow> (None, c)
         | Some val \<Rightarrow>
             (let c1 = c\<lparr> accessCount := accessCount c + 1 \<rparr>
              in if accessCount c1 mod 5 = 0
                 then (Some val, c1\<lparr> cache := mapSet key val (mapDelete key (cache c1)) \<rparr>)
                 else (Some val, c1)))
      else (None, c))"

text \<open>\<open>_batchCleanup\<close>: delete the first \<open>_cleanupThreshold\<close> keys of the map.\<close>

definition batchCleanup :: "('k, 'v) LRUCache \<Rightarrow> ('k, 'v) LRUCache" where
  "batchCleanup c =
     (let deleteCount = cleanupThreshold c;
          keysToDelete = take deleteCount (map fst (cache c))
      in c\<lparr> cache := fold mapDelete keysToDelete (cache c) \<rparr>)"

text \<open>\<open>set\<close>.\<close>

definition lruSet :: "'k \<Rightarrow> 'v \<Rightarrow> ('k, 'v) LRUCache \<Rightarrow> ('k, 'v) LRUCache" where
  "lruSet key val c =
     (let c1 = (if mapHas key (cache c) then c\<lparr> cache := mapDelete key (cache c) \<rparr>
                else if length (cache c) \<ge> maxSize c then batchCleanup c
                else c)
      in c1\<lparr> cache := mapSet key val (cache c1) \<rparr>)"

definition lruDelete :: "'k \<Rightarrow> ('k, 'v) LRUCache \<Rightarrow> ('k, 'v) LRUCache" where
  "lruDelete key c = c\<lparr> cache := mapDelete key (cache c) \<rparr>"

definition lruClear :: "('k, 'v) LRUCache \<Rightarrow> ('k, 'v) LRUCache" where
  "lruClear c = c\<lparr> cache := [], accessCount := 0 \<rparr>"

definition lruSize :: "('k, 'v) LRUCache \<Rightarrow> nat" where
  "lruSize c = length (cache c)"

text \<open>The calls that write a cache, and a history of them (\<open>has\<close> and \<open>size\<close> only read).\<close>

datatype ('k, 'v) cache_op = Set 'k 'v | Get 'k | Delete 'k | Clear

fun cacheStep :: "('k, 'v) cache_op \<Rightarrow> ('k, 'v) LRUCache \<Rightarrow> ('k, 'v) LRUCache" where
  "cacheStep (Set key val) c = lruSet key val c"
| "cacheStep (Get key) c = snd (lruGet key c)"
| "cacheStep (Delete key) c = lruDelete key c"
| "cacheStep Clear c = lruClear c"

fun cacheRun :: "('k, 'v) cache_op list \<Rightarrow> ('k, 'v) LRUCache \<Rightarrow> ('k, 'v) LRUCache" where
  "cacheRun [] c = c"
| "cacheRun (op # ops) c = cacheRun ops (cacheStep op c)"


text \<open>
  From capacity 10 on the batch is not empty and the bound holds: whatever is set, read
  and deleted, the cache never holds more than its capacity, and the keys a full cache
  drops to take a new one are misses afterwards.
\<close>

definition cacheInv :: "nat \<Rightarrow> ('k, 'v) LRUCache \<Rightarrow> bool" where
  "cacheInv capacity c \<longleftrightarrow>
     maxSize c = capacity \<and> cleanupThreshold c = capacity div 10
     \<and> distinct (map fst (cache c)) \<and> length (cache c) \<le> capacity"

lemma mapDelete_keys: "map fst (mapDelete key m) = removeAll key (map fst m)"
  by (induction m) (auto simp: mapDelete_def)

lemma mapDelete_length: "length (mapDelete key m) \<le> length m"
  by (simp add: mapDelete_def)

lemma mapDelete_distinct: "distinct (map fst m) \<Longrightarrow> distinct (map fst (mapDelete key m))"
  by (simp add: mapDelete_keys distinct_removeAll)

lemma mapDelete_present:
  "distinct (map fst m) \<Longrightarrow> mapHas key m \<Longrightarrow> Suc (length (mapDelete key m)) = length m"
proof (induction m)
  case Nil
  then show ?case by (simp add: mapHas_def)
next
  case (Cons e m)
  show ?case
  proof (cases "fst e = key")
    case True
    then have "key \<notin> fst ` set m" using Cons.prems(1) by auto
    then have "filter (\<lambda>entry. fst entry \<noteq> key) m = m"
      by (auto simp: filter_id_conv)
    then show ?thesis using True by (simp add: mapDelete_def)
  next
    case False
    then have "mapHas key m" using Cons.prems(2) by (auto simp: mapHas_def)
    then show ?thesis using Cons False by (simp add: mapDelete_def)
  qed
qed

lemma mapSet_new:
  "\<not> mapHas key m \<Longrightarrow> mapSet key val m = m @ [(key, val)]"
  by (simp add: mapSet_def)

lemma mapHas_mapDelete: "\<not> mapHas key (mapDelete key m)"
  by (auto simp: mapHas_def mapDelete_def)

lemma fold_mapDelete_drop:
  "distinct (map fst m) \<Longrightarrow> fold mapDelete (take n (map fst m)) m = drop n m"
proof (induction m arbitrary: n)
  case Nil
  then show ?case by simp
next
  case (Cons e m)
  show ?case
  proof (cases n)
    case 0
    then show ?thesis by simp
  next
    case (Suc k)
    obtain k v where e: "e = (k, v)" by (cases e)
    have "k \<notin> fst ` set m" using Cons.prems e by simp
    then have "\<forall>entry \<in> set m. fst entry \<noteq> k" by auto
    then have del: "mapDelete (fst e) (e # m) = m"
      by (simp add: mapDelete_def filter_id_conv e)
    show ?thesis
      using Suc del Cons by simp
  qed
qed

lemma cacheInv_set:
  assumes "cacheInv capacity c" and "10 \<le> capacity"
  shows "cacheInv capacity (lruSet key val c)"
proof (cases "mapHas key (cache c)")
  case True
  have "Suc (length (mapDelete key (cache c))) = length (cache c)"
    using assms(1) True by (simp add: cacheInv_def mapDelete_present)
  then show ?thesis
    using assms(1) True
    by (auto simp: cacheInv_def lruSet_def Let_def mapSet_new mapHas_mapDelete
                   mapDelete_keys distinct_removeAll)
next
  case False
  note absent = False
  show ?thesis
  proof (cases "length (cache c) \<ge> maxSize c")
    case True
    have drop: "cache (batchCleanup c) = drop (capacity div 10) (cache c)"
      using assms(1) by (simp add: batchCleanup_def Let_def cacheInv_def fold_mapDelete_drop)
    have notin: "\<not> mapHas key (drop (capacity div 10) (cache c))"
      using absent by (auto simp: mapHas_def dest: in_set_dropD)
    have "0 < capacity div 10" using assms(2) by simp
    then have len: "Suc (length (drop (capacity div 10) (cache c))) \<le> capacity"
      using assms by (auto simp: cacheInv_def)
    have keys: "key \<notin> fst ` set (drop (capacity div 10) (cache c))"
      using notin by (simp add: mapHas_def)
    have dist: "distinct (map fst (drop (capacity div 10) (cache c)))"
      using assms(1) by (simp add: cacheInv_def drop_map [symmetric])
    have fields: "maxSize (batchCleanup c) = capacity \<and> cleanupThreshold (batchCleanup c) = capacity div 10"
      using assms(1) by (simp add: batchCleanup_def Let_def cacheInv_def)
    show ?thesis
      using absent True drop notin len keys dist fields
      by (simp add: cacheInv_def lruSet_def Let_def mapSet_new)
  next
    case False
    then show ?thesis
      using assms(1) absent
      by (auto simp: cacheInv_def lruSet_def Let_def mapSet_new mapHas_def)
  qed
qed

lemma cacheInv_get:
  assumes "cacheInv capacity c"
  shows "cacheInv capacity (snd (lruGet key c))"
proof (cases "mapHas key (cache c)")
  case False
  then show ?thesis using assms by (simp add: lruGet_def)
next
  case True
  have "Suc (length (mapDelete key (cache c))) = length (cache c)"
    using assms True by (simp add: cacheInv_def mapDelete_present)
  then show ?thesis
    using assms True
    by (auto simp: cacheInv_def lruGet_def Let_def mapSet_new mapHas_mapDelete
                   mapDelete_keys distinct_removeAll split: option.splits)
qed

lemma cacheInv_delete: "cacheInv capacity c \<Longrightarrow> cacheInv capacity (lruDelete key c)"
  using mapDelete_length [of key "cache c"]
  by (auto simp: cacheInv_def lruDelete_def mapDelete_distinct)

lemma cacheInv_clear: "cacheInv capacity c \<Longrightarrow> cacheInv capacity (lruClear c)"
  by (simp add: cacheInv_def lruClear_def)

lemma cacheInv_run:
  "10 \<le> capacity \<Longrightarrow> cacheInv capacity c \<Longrightarrow> cacheInv capacity (cacheRun ops c)"
proof (induction ops arbitrary: c)
  case Nil
  then show ?case by simp
next
  case (Cons op ops)
  have "cacheInv capacity (cacheStep op c)"
    using Cons.prems
    by (cases op) (simp_all add: cacheInv_set cacheInv_get cacheInv_delete cacheInv_clear)
  then show ?case using Cons by simp
qed

lemma large_cache_bounded:
  "10 \<le> capacity \<Longrightarrow> lruSize (cacheRun ops (newLRUCache capacity)) \<le> capacity"
proof -
  assume big: "10 \<le> capacity"
  have "cacheInv capacity (newLRUCache capacity :: ('a, 'b) LRUCache)"
    by (simp add: cacheInv_def newLRUCache_def)
  then have "cacheInv capacity (cacheRun ops (newLRUCache capacity))"
    using big by (rule cacheInv_run [rotated])
  then show ?thesis by (simp add: cacheInv_def lruSize_def)
qed













section \<open>RotationManager\<close>

text \<open>
  \<open>usageStats\<close> is a plain JavaScript object (\<open>{}\<close>) used as a map from item keys to
  counts. The model keeps its own properties in creation order (\<open>mapSet\<close>, \<open>mapGet\<close> as
  for \<open>Map\<close>). Enumeration (\<open>Object.keys\<close>, \<open>Object.entries\<close>) lists the properties whose
  key is an array index first, in ascending numeric order, then the others in creation
  order. An array index is the canonical decimal string of an integer below \<open>2^32 - 1\<close>.
\<close>

definition isDigit :: "char \<Rightarrow> bool" where
  "isDigit c \<longleftrightarrow> 48 \<le> (of_char c :: nat) \<and> (of_char c :: nat) \<le> 57"

definition decimalValue :: "string \<Rightarrow> nat" where
  "decimalValue key = foldl (\<lambda>n c. 10 * n + ((of_char c :: nat) - 48)) 0 key"

definition isArrayIndex :: "string \<Rightarrow> bool" where
  "isArrayIndex key \<longleftrightarrow>
     key \<noteq> [] \<and> list_all isDigit key \<and> (length key = 1 \<or> hd key \<noteq> CHR ''0'')
     \<and> decimalValue key < 4294967295"

definition objectEntries :: "(string \<times> 'v) list \<Rightarrow> (string \<times> 'v) list" where
  "objectEntries obj =
     sortBy (\<lambda>a b. int (decimalValue (fst a)) - int (decimalValue (fst b)))
       (filter (\<lambda>entry. isArrayIndex (fst entry)) obj)
     @ filter (\<lambda>entry. \<not> isArrayIndex (fst entry)) obj"

definition objectFromEntries :: "(string \<times> 'v) list \<Rightarrow> (string \<times> 'v) list" where
  "objectFromEntries entries = fold (\<lambda>entry obj. mapSet (fst entry) (snd entry) obj) entries []"

text \<open>
  The object inherits from \<open>Object.prototype\<close>. A key that is no own property is still
  found when it names a member of the prototype: one of its functions, or \<open>__proto__\<close>,
  an accessor whose getter returns the prototype and whose setter ignores every value that
  is neither an object nor \<open>null\<close>.
\<close>

definition prototypeFunctions :: "string list" where
  "prototypeFunctions =
     [''constructor'', ''__defineGetter__'', ''__defineSetter__'', ''hasOwnProperty'',
      ''__lookupGetter__'', ''__lookupSetter__'', ''isPrototypeOf'', ''propertyIsEnumerable'',
      ''toString'', ''valueOf'', ''toLocaleString'']"

definition prototypeMembers :: "string list" where
  "prototypeMembers = ''__proto__'' # prototypeFunctions"

text \<open>
  The values the code stores in \<open>usageStats\<close>: a count, or a string that is no number.
  \<open>Text n\<close> is what \<open>+ 1\<close> makes of an inherited member, appending to its text: the text
  of the member followed by \<open>n\<close> characters \<open>1\<close>.
\<close>

datatype usage = Count nat | Text nat

text \<open>What reading \<open>obj[key]\<close> finds.\<close>

datatype property = Undefined | Own usage | Inherited

definition objectGet :: "string \<Rightarrow> (string \<times> usage) list \<Rightarrow> property" where
  "objectGet key obj =
     (case mapGet key obj of
        Some v \<Rightarrow> Own v
      | None \<Rightarrow> if key \<in> set prototypeMembers then Inherited else Undefined)"

text \<open>
  The assignment \<open>obj[key] = v\<close> of a number or a string: it writes an own property,
  except under the key \<open>__proto__\<close>, where it calls the inherited setter, which drops the
  value.
\<close>

definition objectSet :: "string \<Rightarrow> usage \<Rightarrow> (string \<times> usage) list \<Rightarrow> (string \<times> usage) list" where
  "objectSet key v obj =
     (if key = ''__proto__'' \<and> \<not> mapHas key obj then obj else mapSet key v obj)"

text \<open>Truthiness: \<open>undefined\<close> and the number 0 are falsy, functions, objects and non-empty
  strings are truthy.\<close>

fun truthy :: "property \<Rightarrow> bool" where
  "truthy Undefined = False"
| "truthy (Own (Count n)) = (0 < n)"
| "truthy (Own (Text n)) = True"
| "truthy Inherited = True"

text \<open>\<open>(x || 0) + 1\<close>: addition on a number, concatenation on anything else.\<close>

fun plusOne :: "property \<Rightarrow> usage" where
  "plusOne Undefined = Count 1"
| "plusOne (Own (Count n)) = Count (n + 1)"
| "plusOne (Own (Text n)) = Text (n + 1)"
| "plusOne Inherited = Text 1"

datatype strategy = Disabled | Sequential | Random

text \<open>
  The state of one selector. \<open>rotationStrategy\<close> is what \<open>getRotationStrategy\<close> resolved
  from the configuration when the selector was built. The constructor drops \<open>null\<close> and
  \<open>undefined\<close> from the item list, so the items of the model are proper values and the
  \<open>null\<close> test after the selection never fires.
\<close>

record 'a RotationManager =
  items :: "'a list"
  name :: string
  currentIndex :: int
  usageStats :: "(string \<times> usage) list"
  rotationStrategy :: strategy

definition newRotationManager :: "'a list \<Rightarrow> string \<Rightarrow> strategy \<Rightarrow> 'a RotationManager" where
  "newRotationManager itemList selectorName resolved =
     \<lparr> items = itemList, name = selectorName, currentIndex = 0, usageStats = [],
       rotationStrategy = resolved \<rparr>"

text \<open>
  The selection inside \<open>getNext\<close>: the item and the new \<open>currentIndex\<close>.
  \<open>Math.floor(Math.random() * n)\<close> is some index below \<open>n\<close>: the model is given a
  natural number and reduces it modulo \<open>n\<close>.
\<close>

definition selectItem :: "strategy \<Rightarrow> nat \<Rightarrow> 'a RotationManager \<Rightarrow> 'a \<times> int" where
  "selectItem strat random rm =
     (case strat of
        Disabled \<Rightarrow> (items rm ! 0, currentIndex rm)
      | Random \<Rightarrow> (items rm ! (random mod length (items rm)), currentIndex rm)
      | Sequential \<Rightarrow>
          (let cur = (if currentIndex rm \<ge> int (length (items rm)) \<or> currentIndex rm < 0
                      then 0 else currentIndex rm);
               safeIndex = max 0 (min cur (int (length (items rm)) - 1))
           in (items rm ! nat safeIndex, (safeIndex + 1) mod int (length (items rm)))))"

text \<open>\<open>this.usageStats[key] = (this.usageStats[key] || 0) + 1\<close>.\<close>

definition countUsage :: "string \<Rightarrow> (string \<times> usage) list \<Rightarrow> (string \<times> usage) list" where
  "countUsage key stats = objectSet key (plusOne (objectGet key stats)) stats"

text \<open>
  The comparator \<open>([, a], [, b]) => b - a\<close> of the trimming. The difference of two counts
  is a number; a difference with a string that is no number is \<open>NaN\<close>, which \<open>sort\<close>
  reads as 0.
\<close>

fun difference :: "usage \<Rightarrow> usage \<Rightarrow> int option" where
  "difference (Count b) (Count a) = Some (int b - int a)"
| "difference b a = None"

definition compareUsage :: "(string \<times> usage) \<Rightarrow> (string \<times> usage) \<Rightarrow> int" where
  "compareUsage x y = (case difference (snd y) (snd x) of Some d \<Rightarrow> d | None \<Rightarrow> 0)"

text \<open>
  \<open>Array.prototype.sort\<close> is a stable sort when the comparator is consistent, and leaves
  the order to the JavaScript engine otherwise. This comparator is consistent on entries
  that are all counts; with a string among them, which it finds equal to everything, it is
  consistent only when all the counts are equal. \<open>engineSort\<close> stands for what the engine
  does with an inconsistent comparator.
\<close>

definition countsOf :: "(string \<times> usage) list \<Rightarrow> nat list" where
  "countsOf entries =
     concat (map (\<lambda>entry. case snd entry of Count n \<Rightarrow> [n] | Text n \<Rightarrow> []) entries)"

definition consistentComparator :: "(string \<times> usage) list \<Rightarrow> bool" where
  "consistentComparator entries \<longleftrightarrow>
     length (countsOf entries) = length entries \<or> length (remdups (countsOf entries)) \<le> 1"

definition sortEntries ::
    "((string \<times> usage) list \<Rightarrow> (string \<times> usage) list) \<Rightarrow> (string \<times> usage) list
      \<Rightarrow> (string \<times> usage) list" where
  "sortEntries engineSort entries =
     (if consistentComparator entries then sortBy compareUsage entries else engineSort entries)"

text \<open>
  The trimming of \<open>usageStats\<close>: past 1000 keys, keep the first 100 entries of the
  enumeration sorted by descending count, in a new object, then put the current key back
  with count 1 when reading it there gives a falsy value (\<open>!this.usageStats[key]\<close>).
\<close>

definition trimUsage ::
    "((string \<times> usage) list \<Rightarrow> (string \<times> usage) list) \<Rightarrow> string \<Rightarrow> (string \<times> usage) list
      \<Rightarrow> (string \<times> usage) list" where
  "trimUsage engineSort key stats =
     (if length stats > 1000 then
        (let topItems = take 100 (sortEntries engineSort (objectEntries stats));
             kept = objectFromEntries topItems
         in if \<not> truthy (objectGet key kept) then objectSet key (Count 1) kept else kept)
      else stats)"

text \<open>
  \<open>getNext(forceStrategy)\<close>; \<open>keyOf\<close> is the stringification of an item (the item itself
  when it is a string, \<open>JSON.stringify\<close> otherwise).
\<close>

definition getNext ::
    "((string \<times> usage) list \<Rightarrow> (string \<times> usage) list) \<Rightarrow> ('a \<Rightarrow> string) \<Rightarrow> nat
      \<Rightarrow> strategy option \<Rightarrow> 'a RotationManager \<Rightarrow> error + ('a \<times> 'a RotationManager)" where
  "getNext engineSort keyOf random forceStrategy rm =
     (if items rm = [] then Inl NoItemsAvailable
      else
        (let strat = (case forceStrategy of None \<Rightarrow> rotationStrategy rm | Some forced \<Rightarrow> forced);
             selected = selectItem strat random rm;
             item = fst selected;
             key = keyOf item
         in Inr (item, rm\<lparr> currentIndex := snd selected,
                           usageStats := trimUsage engineSort key
                                           (countUsage key (usageStats rm)) \<rparr>)))"

text \<open>\<open>n\<close> consecutive \<open>getNext()\<close> calls: the items returned, in order, and the final state.\<close>

fun getNextTimes ::
    "((string \<times> usage) list \<Rightarrow> (string \<times> usage) list) \<Rightarrow> ('a \<Rightarrow> string) \<Rightarrow> nat
      \<Rightarrow> 'a RotationManager \<Rightarrow> error + ('a list \<times> 'a RotationManager)" where
  "getNextTimes engineSort keyOf 0 rm = Inr ([], rm)"
| "getNextTimes engineSort keyOf (Suc n) rm =
     (case getNext engineSort keyOf 0 None rm of
        Inl e \<Rightarrow> Inl e
      | Inr (item, rm1) \<Rightarrow>
          (case getNextTimes engineSort keyOf n rm1 of
             Inl e \<Rightarrow> Inl e
           | Inr (rest, rm2) \<Rightarrow> Inr (item # rest, rm2)))"

text \<open>An engine whose \<open>sort\<close> is the stable insertion sort whatever the comparator.\<close>

definition stableEngine :: "(string \<times> usage) list \<Rightarrow> (string \<times> usage) list" where
  "stableEngine entries = sortBy compareUsage entries"

section \<open>Sequential rotation visits every item in turn\<close>

text \<open>The index a sequential selection starts from: an index out of range counts as 0.\<close>

definition startIndex :: "'a RotationManager \<Rightarrow> nat" where
  "startIndex rm =
     (if currentIndex rm \<ge> int (length (items rm)) \<or> currentIndex rm < 0 then 0
      else nat (currentIndex rm))"

lemma getNext_sequential:
  assumes "items rm \<noteq> []" and "rotationStrategy rm = Sequential"
      and "i < length (items rm)" and "currentIndex rm = int i"
  shows "\<exists>rm1. getNext engineSort keyOf random None rm = Inr (items rm ! i, rm1)
           \<and> items rm1 = items rm \<and> rotationStrategy rm1 = Sequential
           \<and> currentIndex rm1 = int (Suc i mod length (items rm))"
proof -
  have "max 0 (min (int i) (int (length (items rm)) - 1)) = int i"
    using assms(3) by simp
  then have sel: "selectItem Sequential random rm
                    = (items rm ! i, (int i + 1) mod int (length (items rm)))"
    using assms(3,4) by (simp add: selectItem_def Let_def)
  have "(int i + 1) mod int (length (items rm)) = int (Suc i mod length (items rm))"
    by (simp add: zmod_int add.commute)
  then show ?thesis
    using assms(1,2) sel by (simp add: getNext_def Let_def)
qed

lemma getNext_out_of_range:
  assumes "rotationStrategy rm = Sequential"
      and "currentIndex rm \<ge> int (length (items rm)) \<or> currentIndex rm < 0"
  shows "getNext engineSort keyOf random None rm
           = getNext engineSort keyOf random None (rm\<lparr> currentIndex := 0 \<rparr>)"
proof (cases "items rm = []")
  case True
  then show ?thesis by (simp add: getNext_def)
next
  case False
  then have "selectItem Sequential random rm
               = selectItem Sequential random (rm\<lparr> currentIndex := 0 \<rparr>)"
    using assms(2) by (simp add: selectItem_def Let_def)
  then show ?thesis
    using assms(1) by (simp add: getNext_def Let_def)
qed

lemma getNextTimes_sequential:
  assumes "items rm \<noteq> []" and "rotationStrategy rm = Sequential"
      and "i < length (items rm)" and "currentIndex rm = int i"
  shows "\<exists>rm1. getNextTimes engineSort keyOf n rm
                 = Inr (map (\<lambda>j. items rm ! ((i + j) mod length (items rm))) [0 ..< n], rm1)
           \<and> items rm1 = items rm \<and> rotationStrategy rm1 = Sequential
           \<and> currentIndex rm1 = int ((i + n) mod length (items rm))"
  using assms
proof (induction n arbitrary: rm i)
  case 0
  then show ?case by simp
next
  case (Suc n)
  let ?N = "length (items rm)"
  obtain rm1 where first: "getNext engineSort keyOf 0 None rm = Inr (items rm ! i, rm1)"
    and its: "items rm1 = items rm" and strat: "rotationStrategy rm1 = Sequential"
    and idx: "currentIndex rm1 = int (Suc i mod ?N)"
    using getNext_sequential [OF Suc.prems, of engineSort keyOf 0] by blast
  have "Suc i mod ?N < length (items rm1)"
    using Suc.prems(1) its by simp
  from Suc.IH [OF _ strat this] Suc.prems(1) its idx
  obtain rm2 where rest: "getNextTimes engineSort keyOf n rm1
        = Inr (map (\<lambda>j. items rm ! ((Suc i mod ?N + j) mod ?N)) [0 ..< n], rm2)"
    and its2: "items rm2 = items rm" and strat2: "rotationStrategy rm2 = Sequential"
    and idx2: "currentIndex rm2 = int ((Suc i mod ?N + n) mod ?N)"
    by auto
  have shift: "(Suc i mod ?N + j) mod ?N = (i + Suc j) mod ?N" for j
    by (simp add: mod_add_left_eq)
  have "map (\<lambda>j. items rm ! ((i + j) mod ?N)) [0 ..< Suc n]
          = items rm ! i # map (\<lambda>j. items rm ! ((i + Suc j) mod ?N)) [0 ..< n]"
    using Suc.prems(3) by (simp add: upt_conv_Cons map_Suc_upt [symmetric] del: upt_Suc)
  then show ?case
    using first rest its2 strat2 idx2 by (simp add: shift)
qed

lemma rotation_by_index:
  assumes "i < length xs"
  shows "map (\<lambda>j. xs ! ((i + j) mod length xs)) [0 ..< length xs] = rotate i xs"
  by (rule nth_equalityI) (simp_all add: nth_rotate)

text \<open>
  Claim C4. For a selector with a non-empty list of N items and the sequential policy, N
  consecutive \<open>getNext\<close> calls return the items in list order starting from the current
  index and wrapping after the last one, so each item exactly once; afterwards the selector
  stands at the index it started from, and the sequence repeats. The call that returns
  item N-1 sets the index to 0.
\<close>

theorem sequential_visits_each_item_once:
  assumes "items rm \<noteq> []" and "rotationStrategy rm = Sequential"
  shows "(\<exists>rm1. getNextTimes engineSort keyOf (length (items rm)) rm
                  = Inr (rotate (startIndex rm) (items rm), rm1)
            \<and> items rm1 = items rm \<and> rotationStrategy rm1 = Sequential
            \<and> currentIndex rm1 = int (startIndex rm))
       \<and> (currentIndex rm = int (length (items rm)) - 1 \<longrightarrow>
            (\<exists>rm2. getNext engineSort keyOf random None rm = Inr (last (items rm), rm2)
               \<and> currentIndex rm2 = 0))"
proof -
  let ?N = "length (items rm)"
  have pos: "0 < ?N" using assms(1) by simp
  have start: "startIndex rm < ?N"
    using pos by (auto simp: startIndex_def)
  have run: "\<exists>rm1. getNextTimes engineSort keyOf ?N rm
                  = Inr (rotate (startIndex rm) (items rm), rm1)
            \<and> items rm1 = items rm \<and> rotationStrategy rm1 = Sequential
            \<and> currentIndex rm1 = int (startIndex rm)"
  proof (cases "currentIndex rm \<ge> int ?N \<or> currentIndex rm < 0")
    case False
    then have "currentIndex rm = int (startIndex rm)"
      by (simp add: startIndex_def)
    from getNextTimes_sequential [OF assms start this, of engineSort keyOf ?N] start
    show ?thesis by (simp add: rotation_by_index)
  next
    case True
    then have zero: "startIndex rm = 0" by (simp add: startIndex_def)
    obtain k where k: "?N = Suc k" using pos by (cases ?N) auto
    have same: "getNextTimes engineSort keyOf ?N rm
                  = getNextTimes engineSort keyOf ?N (rm\<lparr> currentIndex := 0 \<rparr>)"
      using getNext_out_of_range [OF assms(2) True, of engineSort keyOf 0] by (simp add: k)
    have "\<exists>rm1. getNextTimes engineSort keyOf ?N (rm\<lparr> currentIndex := 0 \<rparr>)
                 = Inr (map (\<lambda>j. items rm ! ((0 + j) mod ?N)) [0 ..< ?N], rm1)
           \<and> items rm1 = items rm \<and> rotationStrategy rm1 = Sequential
           \<and> currentIndex rm1 = int ((0 + ?N) mod ?N)"
      using getNextTimes_sequential [of "rm\<lparr> currentIndex := 0 \<rparr>" 0 engineSort keyOf ?N] assms pos
      by simp
    then show ?thesis
      using same zero pos rotation_by_index [of 0 "items rm"] by simp
  qed
  have wrap: "currentIndex rm = int ?N - 1 \<longrightarrow>
            (\<exists>rm2. getNext engineSort keyOf random None rm = Inr (last (items rm), rm2)
               \<and> currentIndex rm2 = 0)"
  proof
    assume "currentIndex rm = int ?N - 1"
    then have idx: "currentIndex rm = int (?N - 1)"
      using assms(1) by (cases "items rm") simp_all
    have "?N - 1 < ?N" using pos by simp
    from getNext_sequential [OF assms this idx, of engineSort keyOf random] pos assms(1)
    show "\<exists>rm2. getNext engineSort keyOf random None rm = Inr (last (items rm), rm2)
               \<and> currentIndex rm2 = 0"
      by (auto simp: last_conv_nth)
  qed
  from run wrap show ?thesis by blast
qed

text \<open>
  The theorem at a selector of three sender names that stands at the second one, on an
  engine whose sort is stable whatever the comparator.
\<close>

theorem sequential_visits_each_item_once_witness:
  "\<exists>rm1. getNextTimes stableEngine id 3
            ((newRotationManager [''Ann'', ''Bob'', ''Cyd''] ''senderName'' Sequential)
               \<lparr> currentIndex := 1 \<rparr>)
          = Inr ([''Bob'', ''Cyd'', ''Ann''], rm1) \<and> currentIndex rm1 = 1"
proof -
  let ?rm = "(newRotationManager [''Ann'', ''Bob'', ''Cyd''] ''senderName'' Sequential)
               \<lparr> currentIndex := 1 \<rparr>"
  have nonempty: "items ?rm \<noteq> []" and seq: "rotationStrategy ?rm = Sequential"
    by (simp_all add: newRotationManager_def)
  have len: "length (items ?rm) = 3"
    by (simp add: newRotationManager_def)
  have start: "startIndex ?rm = 1"
    by (simp add: newRotationManager_def startIndex_def)
  have rot: "rotate 1 (items ?rm) = [''Bob'', ''Cyd'', ''Ann'']"
    by (simp add: newRotationManager_def)
  from sequential_visits_each_item_once [OF nonempty seq, of stableEngine id]
  obtain rm1 where "getNextTimes stableEngine id (length (items ?rm)) ?rm
                      = Inr (rotate (startIndex ?rm) (items ?rm), rm1)"
    and "currentIndex rm1 = int (startIndex ?rm)"
    by blast
  then have "getNextTimes stableEngine id 3 ?rm = Inr ([''Bob'', ''Cyd'', ''Ann''], rm1)
             \<and> currentIndex rm1 = 1"
    by (simp only: len start rot) simp
  then show ?thesis by blast
qed

section \<open>The size of the usage-count map\<close>

lemma length_mapSet: "length (mapSet key val m) \<le> Suc (length m)"
  by (simp add: mapSet_def)

lemma set_mapSet: "set (mapSet key val m) \<subseteq> insert (key, val) (set m)"
  by (auto simp: mapSet_def)

lemma keys_mapSet:
  "map fst (mapSet key val m) = (if mapHas key m then map fst m else map fst m @ [key])"
  by (induction m) (auto simp: mapSet_def mapHas_def)

lemma mapHas_mapSet: "mapHas key (mapSet key val m)"
  unfolding mapHas_def keys_mapSet by (simp add: mapHas_def)

lemma length_objectSet: "length (objectSet key val m) \<le> Suc (length m)"
  using length_mapSet [of key val m] by (simp add: objectSet_def)

lemma set_objectSet: "set (objectSet key val m) \<subseteq> insert (key, val) (set m)"
  using set_mapSet [of key val m] by (auto simp: objectSet_def)

lemma mapHas_objectSet: "key \<noteq> ''__proto__'' \<Longrightarrow> mapHas key (objectSet key val m)"
  by (simp add: objectSet_def mapHas_mapSet)

lemma fold_mapSet_bounds:
  "length (fold (\<lambda>entry obj. mapSet (fst entry) (snd entry) obj) entries acc)
     \<le> length acc + length entries
   \<and> set (fold (\<lambda>entry obj. mapSet (fst entry) (snd entry) obj) entries acc)
     \<subseteq> set acc \<union> set entries"
proof (induction entries arbitrary: acc)
  case Nil
  show ?case by simp
next
  case (Cons e entries)
  have "length (mapSet (fst e) (snd e) acc) \<le> Suc (length acc)"
    by (rule length_mapSet)
  moreover have "set (mapSet (fst e) (snd e) acc) \<subseteq> insert e (set acc)"
    using set_mapSet [of "fst e" "snd e" acc] by simp
  ultimately show ?case
    using Cons.IH [of "mapSet (fst e) (snd e) acc"] by auto
qed

lemma objectFromEntries_bounds:
  "length (objectFromEntries entries) \<le> length entries"
  "set (objectFromEntries entries) \<subseteq> set entries"
  using fold_mapSet_bounds [of entries "[]"] by (simp_all add: objectFromEntries_def)

text \<open>The entries \<open>trimUsage\<close> keeps before it puts the current key back.\<close>

definition topItems ::
    "((string \<times> usage) list \<Rightarrow> (string \<times> usage) list) \<Rightarrow> (string \<times> usage) list
      \<Rightarrow> (string \<times> usage) list" where
  "topItems engineSort stats = take 100 (sortEntries engineSort (objectEntries stats))"

lemma trimUsage_large:
  assumes "1000 < length stats"
  shows "length (trimUsage engineSort key stats) \<le> 101"
    and "key \<notin> set prototypeMembers \<Longrightarrow> mapHas key (trimUsage engineSort key stats)"
    and "set (trimUsage engineSort key stats)
           \<subseteq> insert (key, Count 1) (set (topItems engineSort stats))"
proof -
  let ?kept = "objectFromEntries (topItems engineSort stats)"
  have len: "length ?kept \<le> 100"
    using objectFromEntries_bounds(1) [of "topItems engineSort stats"] by (simp add: topItems_def)
  have sub: "set ?kept \<subseteq> set (topItems engineSort stats)"
    by (rule objectFromEntries_bounds(2))
  have trimmed: "trimUsage engineSort key stats
       = (if \<not> truthy (objectGet key ?kept) then objectSet key (Count 1) ?kept else ?kept)"
    using assms by (simp add: trimUsage_def topItems_def Let_def)
  show "length (trimUsage engineSort key stats) \<le> 101"
    using len length_objectSet [of key "Count 1" ?kept] by (simp add: trimmed)
  show "mapHas key (trimUsage engineSort key stats)" if plain: "key \<notin> set prototypeMembers"
  proof (cases "truthy (objectGet key ?kept)")
    case False
    have "key \<noteq> ''__proto__''"
      using plain by (auto simp: prototypeMembers_def)
    then show ?thesis using False by (simp add: trimmed mapHas_objectSet)
  next
    case True
    then obtain v where "map_of ?kept key = Some v"
      using plain by (auto simp: objectGet_def mapGet_def split: option.splits)
    then have "key \<in> fst ` set ?kept"
      by (metis map_of_eq_None_iff option.distinct(1))
    then show ?thesis using True by (auto simp: trimmed mapHas_def)
  qed
  show "set (trimUsage engineSort key stats)
          \<subseteq> insert (key, Count 1) (set (topItems engineSort stats))"
    using sub set_objectSet [of key "Count 1" ?kept] by (auto simp: trimmed)
qed

text \<open>Entries that are all counts are sorted stably, whatever the engine.\<close>

lemma countsOf_counts:
  "\<forall>entry \<in> set entries. \<exists>n. snd entry = Count n \<Longrightarrow> length (countsOf entries) = length entries"
  by (induction entries) (auto simp: countsOf_def)

lemma sortEntries_counts:
  assumes "\<forall>entry \<in> set entries. \<exists>n. snd entry = Count n"
  shows "sortEntries engineSort entries = sortBy compareUsage entries"
  using countsOf_counts [OF assms] by (simp add: sortEntries_def consistentComparator_def)

text \<open>
  The top 100 of entries that are all counts: an entry among the first 100 of the sorted
  enumeration has fewer than 100 entries with a greater count.
\<close>

fun countOf :: "usage \<Rightarrow> nat" where
  "countOf (Count n) = n"
| "countOf (Text n) = 0"

lemma filter_insertBy_length:
  "length (filter P (insertBy cmp a bs)) = length (filter P (a # bs))"
  by (induction bs) auto

lemma filter_sortBy_length: "length (filter P (sortBy cmp xs)) = length (filter P xs)"
proof (induction xs)
  case Nil
  show ?case by (simp add: sortBy_def)
next
  case (Cons x xs)
  have "sortBy cmp (x # xs) = insertBy cmp x (sortBy cmp xs)"
    by (simp add: sortBy_def)
  then show ?case
    using Cons by (simp add: filter_insertBy_length)
qed

lemma set_objectEntries: "set (objectEntries obj) = set obj"
  by (auto simp: objectEntries_def set_sortBy)

lemma filter_objectEntries_length:
  "length (filter P (objectEntries obj)) = length (filter P obj)"
proof -
  have "length (filter P (filter Q obj)) + length (filter P (filter (\<lambda>e. \<not> Q e) obj))
          = length (filter P obj)" for Q
    by (induction obj) auto
  then show ?thesis
    by (simp add: objectEntries_def filter_sortBy_length)
qed

lemma compareUsage_counts:
  "snd a = Count m \<Longrightarrow> snd b = Count n \<Longrightarrow> compareUsage a b \<le> 0 \<longleftrightarrow> n \<le> m"
  by (simp add: compareUsage_def)

lemma descending_insertBy:
  assumes "\<forall>e \<in> set (a # bs). \<exists>n. snd e = Count n"
      and "sorted_wrt (\<lambda>x y. countOf (snd y) \<le> countOf (snd x)) bs"
  shows "sorted_wrt (\<lambda>x y. countOf (snd y) \<le> countOf (snd x)) (insertBy compareUsage a bs)"
  using assms
proof (induction bs)
  case Nil
  then show ?case by simp
next
  case (Cons b bs)
  obtain m n where a: "snd a = Count m" and b: "snd b = Count n"
    using Cons.prems(1) by auto
  show ?case
  proof (cases "compareUsage a b \<le> 0")
    case True
    then have "n \<le> m" using a b by (simp add: compareUsage_counts)
    then show ?thesis
      using True Cons.prems(2) a b by auto
  next
    case False
    then have "m \<le> n" using a b by (simp add: compareUsage_counts)
    moreover have "sorted_wrt (\<lambda>x y. countOf (snd y) \<le> countOf (snd x)) (insertBy compareUsage a bs)"
      using Cons by simp
    ultimately show ?thesis
      using False Cons.prems(2) a b by (auto simp: set_insertBy)
  qed
qed

lemma descending_sortBy:
  assumes "\<forall>e \<in> set xs. \<exists>n. snd e = Count n"
  shows "sorted_wrt (\<lambda>x y. countOf (snd y) \<le> countOf (snd x)) (sortBy compareUsage xs)"
  using assms
proof (induction xs)
  case Nil
  show ?case by (simp add: sortBy_def)
next
  case (Cons x xs)
  have step: "sortBy compareUsage (x # xs) = insertBy compareUsage x (sortBy compareUsage xs)"
    by (simp add: sortBy_def)
  have "\<forall>e \<in> set (x # sortBy compareUsage xs). \<exists>n. snd e = Count n"
    using Cons.prems by (simp add: set_sortBy)
  moreover have "sorted_wrt (\<lambda>x y. countOf (snd y) \<le> countOf (snd x)) (sortBy compareUsage xs)"
    using Cons by simp
  ultimately show ?case
    unfolding step by (rule descending_insertBy)
qed

lemma few_greater_before:
  assumes "sorted_wrt (\<lambda>x y. countOf (snd y) \<le> countOf (snd x)) xs" and "x \<in> set (take n xs)"
  shows "length (filter (\<lambda>e. countOf (snd x) < countOf (snd e)) xs) < n"
proof -
  obtain p where p: "p < n" "p < length xs" and x: "x = xs ! p"
    using assms(2) by (auto simp: in_set_conv_nth)
  have split: "xs = take p xs @ x # drop (Suc p) xs"
    using p(2) x by (simp add: id_take_nth_drop)
  have "sorted_wrt (\<lambda>x y. countOf (snd y) \<le> countOf (snd x)) (x # drop (Suc p) xs)"
    using assms(1) by (subst (asm) split) (simp add: sorted_wrt_append)
  then have "\<forall>e \<in> set (x # drop (Suc p) xs). \<not> countOf (snd x) < countOf (snd e)"
    by auto
  then have none: "filter (\<lambda>e. countOf (snd x) < countOf (snd e)) (x # drop (Suc p) xs) = []"
    by (simp only: filter_empty_conv) 
  have "filter (\<lambda>e. countOf (snd x) < countOf (snd e)) xs
          = filter (\<lambda>e. countOf (snd x) < countOf (snd e)) (take p xs)
            @ filter (\<lambda>e. countOf (snd x) < countOf (snd e)) (x # drop (Suc p) xs)"
    by (subst split) (simp only: filter_append)
  then have "length (filter (\<lambda>e. countOf (snd x) < countOf (snd e)) xs)
               = length (filter (\<lambda>e. countOf (snd x) < countOf (snd e)) (take p xs))"
    by (simp only: none) simp
  also have "\<dots> \<le> length (take p xs)"
    by (rule length_filter_le)
  also have "\<dots> \<le> p"
    by simp
  finally show ?thesis using p(1) by simp
qed

lemma top_among_counts:
  assumes "\<forall>e \<in> set stats. \<exists>n. snd e = Count n" and "kept \<in> set (topItems engineSort stats)"
  shows "kept \<in> set stats
         \<and> length (filter (\<lambda>e. countOf (snd kept) < countOf (snd e)) stats) < 100"
proof -
  let ?sorted = "sortBy compareUsage (objectEntries stats)"
  have counts: "\<forall>e \<in> set (objectEntries stats). \<exists>n. snd e = Count n"
    using assms(1) by (simp add: set_objectEntries)
  then have same: "sortEntries engineSort (objectEntries stats) = ?sorted"
    by (rule sortEntries_counts)
  then have top: "kept \<in> set (take 100 ?sorted)"
    using assms(2) by (simp add: topItems_def)
  have "sorted_wrt (\<lambda>x y. countOf (snd y) \<le> countOf (snd x)) ?sorted"
    using counts by (rule descending_sortBy)
  then have "length (filter (\<lambda>e. countOf (snd kept) < countOf (snd e)) ?sorted) < 100"
    using top by (rule few_greater_before)
  then have "length (filter (\<lambda>e. countOf (snd kept) < countOf (snd e)) stats) < 100"
    by (simp add: filter_sortBy_length filter_objectEntries_length)
  moreover have "kept \<in> set stats"
    using top by (auto simp: set_sortBy set_objectEntries dest: in_set_takeD)
  ultimately show ?thesis by simp
qed

text \<open>
  Claim C9, as the code has it. Whenever the usage-count object, after the selected item
  is counted, has more than 1000 keys, \<open>getNext\<close> leaves at most 101 entries: entries
  among the first 100 of the sorted enumeration, and the key of the selected item, put
  back with count 1 when it is not found among them. The key of the selected item is left
  in the object unless it names a member of \<open>Object.prototype\<close>: such a key is found in
  every object, so it is not put back, and \<open>__proto__\<close> is never stored. When all the
  values are counts, the entries kept, apart from the key put back, are among the 100 most
  used: fewer than 100 entries had a greater count. With at most 1000 keys the object is
  left as counted.
\<close>

theorem usage_map_trimmed_to_101:
  assumes "getNext engineSort keyOf random forceStrategy rm = Inr (item, rm1)"
  shows "(1000 < length (countUsage (keyOf item) (usageStats rm)) \<longrightarrow>
            length (usageStats rm1) \<le> 101
            \<and> set (usageStats rm1)
                \<subseteq> insert (keyOf item, Count 1)
                     (set (topItems engineSort (countUsage (keyOf item) (usageStats rm))))
            \<and> (keyOf item \<notin> set prototypeMembers \<longrightarrow> mapHas (keyOf item) (usageStats rm1))
            \<and> ((\<forall>e \<in> set (countUsage (keyOf item) (usageStats rm)). \<exists>n. snd e = Count n) \<longrightarrow>
                 (\<forall>kept \<in> set (usageStats rm1).
                    kept = (keyOf item, Count 1)
                    \<or> kept \<in> set (countUsage (keyOf item) (usageStats rm))
                      \<and> length (filter (\<lambda>e. countOf (snd kept) < countOf (snd e))
                                  (countUsage (keyOf item) (usageStats rm))) < 100)))
       \<and> (length (countUsage (keyOf item) (usageStats rm)) \<le> 1000 \<longrightarrow>
            usageStats rm1 = countUsage (keyOf item) (usageStats rm))"
proof -
  let ?counted = "countUsage (keyOf item) (usageStats rm)"
  have stats: "usageStats rm1 = trimUsage engineSort (keyOf item) ?counted"
    using assms by (auto simp: getNext_def Let_def split: if_splits)
  have small: "usageStats rm1 = ?counted" if "length ?counted \<le> 1000"
    using that by (simp add: stats trimUsage_def)
  have large: "length (usageStats rm1) \<le> 101
            \<and> set (usageStats rm1)
                \<subseteq> insert (keyOf item, Count 1) (set (topItems engineSort ?counted))
            \<and> (keyOf item \<notin> set prototypeMembers \<longrightarrow> mapHas (keyOf item) (usageStats rm1))
            \<and> ((\<forall>e \<in> set ?counted. \<exists>n. snd e = Count n) \<longrightarrow>
                 (\<forall>kept \<in> set (usageStats rm1).
                    kept = (keyOf item, Count 1)
                    \<or> kept \<in> set ?counted
                      \<and> length (filter (\<lambda>e. countOf (snd kept) < countOf (snd e)) ?counted) < 100))"
    if big: "1000 < length ?counted"
  proof -
    note facts = trimUsage_large [OF big, where engineSort = engineSort and key = "keyOf item"]
    have sub: "set (usageStats rm1)
                 \<subseteq> insert (keyOf item, Count 1) (set (topItems engineSort ?counted))"
      using facts(3) by (simp only: stats)
    have top: "\<forall>kept \<in> set (usageStats rm1).
                    kept = (keyOf item, Count 1)
                    \<or> kept \<in> set ?counted
                      \<and> length (filter (\<lambda>e. countOf (snd kept) < countOf (snd e)) ?counted) < 100"
      if counts: "\<forall>e \<in> set ?counted. \<exists>n. snd e = Count n"
    proof
      fix kept assume "kept \<in> set (usageStats rm1)"
      then have "kept = (keyOf item, Count 1) \<or> kept \<in> set (topItems engineSort ?counted)"
        using sub by blast
      then show "kept = (keyOf item, Count 1)
                    \<or> kept \<in> set ?counted
                      \<and> length (filter (\<lambda>e. countOf (snd kept) < countOf (snd e)) ?counted) < 100"
        using top_among_counts [OF counts] by blast
    qed
    have "length (usageStats rm1) \<le> 101"
      using facts(1) by (simp only: stats)
    moreover have "keyOf item \<notin> set prototypeMembers \<longrightarrow> mapHas (keyOf item) (usageStats rm1)"
      using facts(2) by (simp only: stats) blast
    ultimately show ?thesis
      using sub top by blast
  qed
  from small large show ?thesis
    by blast
qed


section \<open>A selector with 1001 items\<close>

text \<open>
  1001 different items, none of them an array index or the name of a member of
  \<open>Object.prototype\<close>: \<open>item-\<close>, \<open>item-x\<close>, \<open>item-xx\<close> and so on.
\<close>

text \<open>The key of an item that is a string: the string itself.\<close>

definition selfKey :: "string \<Rightarrow> string" where
  "selfKey item = item"

definition itemName :: "nat \<Rightarrow> string" where
  "itemName i = ''item-'' @ replicate i (CHR ''x'')"

definition manyItems :: "string list" where
  "manyItems = map itemName [0 ..< 1001]"

text \<open>The number of keys in the usage-count object after \<open>n\<close> calls of \<open>getNext\<close>.\<close>

definition usageKeysAfter ::
    "((string \<times> usage) list \<Rightarrow> (string \<times> usage) list) \<Rightarrow> ('a \<Rightarrow> string) \<Rightarrow> nat
      \<Rightarrow> 'a RotationManager \<Rightarrow> nat option" where
  "usageKeysAfter engineSort keyOf n rm =
     (case getNextTimes engineSort keyOf n rm of
        Inl e \<Rightarrow> None
      | Inr result \<Rightarrow> Some (length (usageStats (snd result))))"

lemma itemName_inj: "itemName i = itemName j \<Longrightarrow> i = j"
proof -
  assume "itemName i = itemName j"
  then have "length (itemName i) = length (itemName j)" by simp
  then show "i = j" by (simp add: itemName_def)
qed

lemma manyItems_facts:
  "length manyItems = 1001" "distinct manyItems"
  "\<forall>key \<in> set manyItems. \<not> isArrayIndex key"
  "\<forall>key \<in> set manyItems. key \<notin> set prototypeMembers"
proof -
  show "length manyItems = 1001" by (simp add: manyItems_def)
  show "distinct manyItems"
    by (auto simp: manyItems_def distinct_map inj_on_def dest: itemName_inj)
  show "\<forall>key \<in> set manyItems. \<not> isArrayIndex key"
    by (auto simp: manyItems_def itemName_def isArrayIndex_def isDigit_def)
  show "\<forall>key \<in> set manyItems. key \<notin> set prototypeMembers"
    by (auto simp: manyItems_def itemName_def prototypeMembers_def prototypeFunctions_def)
qed

text \<open>A usage object in which the first \<open>n\<close> items have been counted once each.\<close>

definition countedOnce :: "nat \<Rightarrow> string list \<Rightarrow> (string \<times> usage) list" where
  "countedOnce n its = map (\<lambda>key. (key, Count 1)) (take n its)"

lemma countUsage_fresh:
  assumes "distinct its" and "i < length its" and "\<forall>key \<in> set its. key \<notin> set prototypeMembers"
  shows "countUsage (its ! i) (countedOnce i its) = countedOnce (Suc i) its"
proof -
  have "its ! i \<notin> set (take i its)"
    using assms by (auto simp: in_set_conv_nth distinct_conv_nth)
  then have absent: "its ! i \<notin> fst ` set (countedOnce i its)"
    by (auto simp: countedOnce_def)
  then have none: "mapGet (its ! i) (countedOnce i its) = None"
    by (simp add: mapGet_def map_of_eq_None_iff)
  have nohas: "\<not> mapHas (its ! i) (countedOnce i its)"
    using absent by (simp add: mapHas_def)
  have plain: "its ! i \<notin> set prototypeMembers"
    using assms(2,3) by simp
  then have "objectGet (its ! i) (countedOnce i its) = Undefined"
    using none by (simp add: objectGet_def)
  then have "countUsage (its ! i) (countedOnce i its)
               = mapSet (its ! i) (Count 1) (countedOnce i its)"
    using plain by (auto simp: countUsage_def objectSet_def prototypeMembers_def)
  then show ?thesis
    using assms(2) nohas by (simp add: mapSet_def countedOnce_def take_Suc_conv_app_nth)
qed

lemma first_calls_count_once:
  assumes "distinct its" and "items rm = its" and "rotationStrategy rm = Sequential"
      and "currentIndex rm = int i" and "usageStats rm = countedOnce i its"
      and "i + n \<le> 1000" and "i + n < length its"
      and "\<forall>key \<in> set its. key \<notin> set prototypeMembers"
  shows "getNextTimes engineSort selfKey n rm
           = Inr (take n (drop i its),
                  rm\<lparr> currentIndex := int (i + n), usageStats := countedOnce (i + n) its \<rparr>)"
  using assms
proof (induction n arbitrary: rm i)
  case 0
  then show ?case by (cases rm) simp
next
  case (Suc n)
  have i: "i < length its" and nonempty: "items rm \<noteq> []"
    using Suc.prems by auto
  have sel: "selectItem Sequential 0 rm = (its ! i, int (Suc i))"
    using Suc.prems i by (simp add: selectItem_def Let_def zmod_int [symmetric] add.commute)
  have small: "\<not> 1000 < length (countedOnce (Suc i) its)"
    using Suc.prems by (simp add: countedOnce_def)
  let ?rm1 = "rm\<lparr> currentIndex := int (Suc i), usageStats := countedOnce (Suc i) its \<rparr>"
  have first: "getNext engineSort selfKey 0 None rm = Inr (its ! i, ?rm1)"
    using nonempty Suc.prems(3,5) sel small countUsage_fresh [OF Suc.prems(1) i Suc.prems(8)]
    by (simp add: getNext_def Let_def trimUsage_def selfKey_def)
  have rest: "getNextTimes engineSort selfKey n ?rm1
           = Inr (take n (drop (Suc i) its),
                  ?rm1\<lparr> currentIndex := int (Suc i + n),
                         usageStats := countedOnce (Suc i + n) its \<rparr>)"
    using Suc.prems by (intro Suc.IH) simp_all
  have "take (Suc n) (drop i its) = its ! i # take n (drop (Suc i) its)"
    using i by (simp add: Cons_nth_drop_Suc [symmetric])
  then show ?case
    using first rest by simp
qed

lemma sortBy_already:
  "(\<forall>a \<in> set xs. \<forall>b \<in> set xs. cmp a b \<le> 0) \<Longrightarrow> sortBy cmp xs = xs"
proof (induction xs)
  case Nil
  show ?case by (simp add: sortBy_def)
next
  case (Cons x xs)
  then have "sortBy cmp xs = xs" by simp
  then show ?case
    using Cons.prems by (cases xs) (simp_all add: sortBy_def)
qed

lemma objectEntries_plain:
  "\<forall>entry \<in> set obj. \<not> isArrayIndex (fst entry) \<Longrightarrow> objectEntries obj = obj"
  by (simp add: objectEntries_def filter_empty_conv [THEN iffD2] filter_id_conv [THEN iffD2]
                sortBy_def)

lemma fold_mapSet_distinct:
  assumes "distinct (map fst entries)" and "fst ` set entries \<inter> fst ` set acc = {}"
  shows "fold (\<lambda>entry obj. mapSet (fst entry) (snd entry) obj) entries acc = acc @ entries"
  using assms
proof (induction entries arbitrary: acc)
  case Nil
  show ?case by simp
next
  case (Cons e entries)
  have "\<not> mapHas (fst e) acc"
    using Cons.prems(2) by (auto simp: mapHas_def)
  then have step: "mapSet (fst e) (snd e) acc = acc @ [e]"
    by (simp add: mapSet_def)
  have "fst ` set entries \<inter> fst ` set (acc @ [e]) = {}"
    using Cons.prems by auto
  then show ?case
    using Cons.IH [of "acc @ [e]"] Cons.prems(1) step by simp
qed

lemma trim_after_1001_fresh_keys:
  assumes "distinct its" and "length its = 1001" and "\<forall>key \<in> set its. \<not> isArrayIndex key"
      and "\<forall>key \<in> set its. key \<notin> set prototypeMembers"
  shows "trimUsage engineSort (its ! 1000) (countedOnce 1001 its)
           = countedOnce 100 its @ [(its ! 1000, Count 1)]"
proof -
  let ?stats = "countedOnce 1001 its"
  have plain: "objectEntries ?stats = ?stats"
    using assms(3) by (intro objectEntries_plain) (auto simp: countedOnce_def dest: in_set_takeD)
  have "sortBy compareUsage ?stats = ?stats"
    by (intro sortBy_already) (auto simp: countedOnce_def compareUsage_def)
  moreover have "sortEntries engineSort ?stats = sortBy compareUsage ?stats"
    by (intro sortEntries_counts) (auto simp: countedOnce_def)
  ultimately have sorted: "sortEntries engineSort ?stats = ?stats"
    by simp
  have top: "take 100 ?stats = countedOnce 100 its"
    by (simp add: countedOnce_def take_map min_def)
  have dist: "distinct (map fst (countedOnce 100 its))"
    using assms(1) by (simp add: countedOnce_def comp_def distinct_take)
  have kept: "objectFromEntries (countedOnce 100 its) = countedOnce 100 its"
    using fold_mapSet_distinct [OF dist, of "[]"] by (simp add: objectFromEntries_def)
  have "its ! 1000 \<notin> set (take 100 its)"
    using assms(1,2) by (auto simp: in_set_conv_nth distinct_conv_nth)
  then have absent: "its ! 1000 \<notin> fst ` set (countedOnce 100 its)"
    by (auto simp: countedOnce_def)
  then have none: "mapGet (its ! 1000) (countedOnce 100 its) = None"
    by (simp add: mapGet_def map_of_eq_None_iff)
  have nohas: "\<not> mapHas (its ! 1000) (countedOnce 100 its)"
    using absent by (simp add: mapHas_def)
  have member: "its ! 1000 \<notin> set prototypeMembers"
    using assms(2,4) by simp
  then have undefined: "objectGet (its ! 1000) (countedOnce 100 its) = Undefined"
    using none by (simp add: objectGet_def)
  have put: "objectSet (its ! 1000) (Count 1) (countedOnce 100 its)
               = countedOnce 100 its @ [(its ! 1000, Count 1)]"
    using member nohas by (auto simp: objectSet_def mapSet_def prototypeMembers_def)
  have "1000 < length ?stats"
    using assms(2) by (simp add: countedOnce_def)
  then show ?thesis
    using put by (simp add: trimUsage_def Let_def plain sorted top kept undefined)
qed

text \<open>The selector after its first 1000 calls: every item but the last counted once.\<close>

definition thousandCounted :: "string RotationManager" where
  "thousandCounted =
     (newRotationManager manyItems ''subjects'' Sequential)
       \<lparr> currentIndex := 1000, usageStats := countedOnce 1000 manyItems \<rparr>"

lemma many_after_1000:
  "getNextTimes engineSort selfKey 1000 (newRotationManager manyItems ''subjects'' Sequential)
     = Inr (take 1000 manyItems, thousandCounted)"
  using first_calls_count_once
          [of manyItems "newRotationManager manyItems ''subjects'' Sequential" 0 1000 engineSort]
        manyItems_facts
  by (simp add: newRotationManager_def countedOnce_def thousandCounted_def)

lemma many_last_call:
  "getNext engineSort selfKey 0 None thousandCounted
     = Inr (manyItems ! 1000,
            thousandCounted
              \<lparr> currentIndex := 0,
                usageStats := countedOnce 100 manyItems @ [(manyItems ! 1000, Count 1)] \<rparr>)"
proof -
  have its: "items thousandCounted = manyItems"
    and strat: "rotationStrategy thousandCounted = Sequential"
    and idx: "currentIndex thousandCounted = 1000"
    and stats: "usageStats thousandCounted = countedOnce 1000 manyItems"
    by (simp_all add: thousandCounted_def newRotationManager_def)
  have sel: "selectItem Sequential 0 thousandCounted = (manyItems ! 1000, 0)"
    using its idx manyItems_facts(1) by (simp add: selectItem_def Let_def)
  have counted: "countUsage (manyItems ! 1000) (countedOnce 1000 manyItems)
                   = countedOnce 1001 manyItems"
    using countUsage_fresh [of manyItems 1000] manyItems_facts by simp
  have nonempty: "items thousandCounted \<noteq> []"
    using its manyItems_facts(1) by auto
  show ?thesis
    using nonempty strat stats sel counted trim_after_1001_fresh_keys manyItems_facts
    by (simp add: getNext_def Let_def selfKey_def)
qed

lemma getNextTimes_one_more:
  "getNextTimes engineSort keyOf n rm = Inr (picked, rm1) \<Longrightarrow>
   getNext engineSort keyOf 0 None rm1 = Inr (item, rm2) \<Longrightarrow>
   getNextTimes engineSort keyOf (Suc n) rm = Inr (picked @ [item], rm2)"
proof (induction n arbitrary: rm picked)
  case 0
  then show ?case by simp
next
  case (Suc n)
  from Suc.prems(1) obtain first rm0 rest where
      "getNext engineSort keyOf 0 None rm = Inr (first, rm0)"
      and "getNextTimes engineSort keyOf n rm0 = Inr (rest, rm1)" and "picked = first # rest"
    by (auto split: sum.splits prod.splits)
  then show ?case
    using Suc.IH [of rm0 rest] Suc.prems(2) by simp
qed

text \<open>
  Claim C9 as stated (after a call in which the usage-count map exceeded 1000 keys, the
  map has at most 100 entries) fails for a selector with 1001 items: after 1000 calls the
  map has 1000 keys, the next call makes them 1001 and trims, and 101 entries are left.
\<close>

theorem usage_map_keeps_101_entries:
  "usageKeysAfter stableEngine selfKey 1000
     (newRotationManager manyItems ''subjects'' Sequential) = Some 1000
   \<and> usageKeysAfter stableEngine selfKey 1001
       (newRotationManager manyItems ''subjects'' Sequential) = Some 101"
proof -
  have "getNextTimes stableEngine selfKey (Suc 1000)
          (newRotationManager manyItems ''subjects'' Sequential)
          = Inr (take 1000 manyItems @ [manyItems ! 1000],
                 thousandCounted
                   \<lparr> currentIndex := 0,
                     usageStats := countedOnce 100 manyItems @ [(manyItems ! 1000, Count 1)] \<rparr>)"
    using many_after_1000 many_last_call by (rule getNextTimes_one_more)
  moreover have "Suc 1000 = 1001" by simp
  ultimately have last: "getNextTimes stableEngine selfKey 1001
                     (newRotationManager manyItems ''subjects'' Sequential)
          = Inr (take 1000 manyItems @ [manyItems ! 1000],
                 thousandCounted
                   \<lparr> currentIndex := 0,
                     usageStats := countedOnce 100 manyItems @ [(manyItems ! 1000, Count 1)] \<rparr>)"
    by (simp only:)
  show ?thesis
    using manyItems_facts(1)
    by (simp add: usageKeysAfter_def many_after_1000 last thousandCounted_def countedOnce_def)
qed

text \<open>
  The theorem of claim C9 at the 1001st call of that selector: the counted object has 1001
  keys, all its values are counts, and the call leaves the selected key in an object of no
  more than 101 entries; the first item is kept, and fewer than 100 entries had a greater
  count than it.
\<close>

theorem usage_map_trimmed_to_101_witness:
  "1000 < length (countUsage (selfKey (manyItems ! 1000)) (usageStats thousandCounted))
   \<and> selfKey (manyItems ! 1000) \<notin> set prototypeMembers
   \<and> length (countedOnce 100 manyItems @ [(manyItems ! 1000, Count 1)]) \<le> 101
   \<and> mapHas (selfKey (manyItems ! 1000))
       (countedOnce 100 manyItems @ [(manyItems ! 1000, Count 1)])
   \<and> length (filter (\<lambda>e. countOf (snd (manyItems ! 0, Count 1)) < countOf (snd e))
               (countUsage (selfKey (manyItems ! 1000)) (usageStats thousandCounted))) < 100"
proof -
  let ?counted = "countUsage (selfKey (manyItems ! 1000)) (usageStats thousandCounted)"
  let ?after = "countedOnce 100 manyItems @ [(manyItems ! 1000, Count 1)]"
  have counted: "?counted = countedOnce 1001 manyItems"
    using countUsage_fresh [of manyItems 1000] manyItems_facts
    by (simp add: thousandCounted_def selfKey_def newRotationManager_def)
  have big: "1000 < length ?counted"
    using manyItems_facts(1) by (simp add: counted countedOnce_def)
  have plain: "selfKey (manyItems ! 1000) \<notin> set prototypeMembers"
    using manyItems_facts(1,4) by (simp add: selfKey_def)
  have counts: "\<forall>e \<in> set ?counted. \<exists>n. snd e = Count n"
    by (auto simp: counted countedOnce_def)
  have "manyItems ! 0 \<in> set (take 100 manyItems)"
    using manyItems_facts(1) by (simp add: in_set_conv_nth) (rule exI [of _ 0], simp)
  then have first: "(manyItems ! 0, Count 1) \<in> set ?after"
    by (simp add: countedOnce_def)
  have "manyItems ! 0 \<noteq> manyItems ! 1000"
    using manyItems_facts(1,2) by (simp add: nth_eq_iff_index_eq)
  then have other: "(manyItems ! 0, Count 1) \<noteq> (selfKey (manyItems ! 1000), Count 1)"
    by (simp add: selfKey_def)
  note inst = usage_map_trimmed_to_101 [OF many_last_call, of stableEngine]
  have after: "usageStats (thousandCounted \<lparr> currentIndex := 0, usageStats := ?after \<rparr>)
                 = ?after"
    by simp
  from inst big have "length ?after \<le> 101"
    unfolding after by blast
  moreover from inst big plain have "mapHas (selfKey (manyItems ! 1000)) ?after"
    unfolding after by blast
  moreover from inst big counts
  have "\<forall>kept \<in> set ?after.
         kept = (selfKey (manyItems ! 1000), Count 1)
         \<or> kept \<in> set ?counted
           \<and> length (filter (\<lambda>e. countOf (snd kept) < countOf (snd e)) ?counted) < 100"
    unfolding after by blast
  then have "length (filter (\<lambda>e. countOf (snd (manyItems ! 0, Count 1)) < countOf (snd e))
                      ?counted) < 100"
    using first other by blast
  ultimately show ?thesis
    using big plain by blast
qed

text \<open>
  Keys that name members of \<open>Object.prototype\<close>. \<open>__proto__\<close> is never counted. A
  function name such as \<open>toString\<close> is counted as a string; when the trimming drops it,
  it is not put back, because reading it from the new object finds the inherited function.
\<close>

lemma inherited_keys_counted:
  "countUsage ''__proto__'' [] = []"
  "countUsage ''toString'' [] = [(''toString'', Text 1)]"
  "countUsage ''toString'' [(''toString'', Text 1)] = [(''toString'', Text 2)]"
  "countUsage ''hello'' [(''hello'', Count 1)] = [(''hello'', Count 2)]"
  by (simp_all add: countUsage_def objectGet_def objectSet_def mapGet_def mapSet_def mapHas_def
                    prototypeMembers_def prototypeFunctions_def)

lemma inherited_key_not_put_back:
  assumes "distinct its" and "length its = 1000" and "\<forall>key \<in> set its. \<not> isArrayIndex key"
      and "\<forall>key \<in> set its. key \<notin> set prototypeMembers"
  shows "trimUsage engineSort ''toString'' (countUsage ''toString'' (countedOnce 1000 its))
           = countedOnce 100 its"
proof -
  let ?stats = "countedOnce 1000 its @ [(''toString'', Text 1)]"
  have member: "''toString'' \<in> set prototypeMembers"
    by (simp add: prototypeMembers_def prototypeFunctions_def)
  then have fresh: "''toString'' \<notin> set its"
    using assms(4) by auto
  then have absent: "''toString'' \<notin> fst ` set (countedOnce n its)" for n
    by (auto simp: countedOnce_def dest: in_set_takeD)
  then have none: "mapGet ''toString'' (countedOnce n its) = None" for n
    by (simp add: mapGet_def map_of_eq_None_iff)
  have nohas: "\<not> mapHas ''toString'' (countedOnce n its)" for n
    using absent [of n] by (simp add: mapHas_def)
  have inherited: "objectGet ''toString'' (countedOnce n its) = Inherited" for n
    using none [of n] member by (simp add: objectGet_def)
  have counted: "countUsage ''toString'' (countedOnce 1000 its) = ?stats"
    using nohas [of 1000] by (simp add: countUsage_def inherited objectSet_def mapSet_def)
  have "\<not> isArrayIndex ''toString''"
    by (simp add: isArrayIndex_def isDigit_def)
  then have plain: "objectEntries ?stats = ?stats"
    using assms(3) by (intro objectEntries_plain) (auto simp: countedOnce_def dest: in_set_takeD)
  have "countsOf ?stats = replicate 1000 1"
    using assms(2) by (simp add: countsOf_def countedOnce_def comp_def map_replicate_const)
  moreover have "length (remdups (replicate n (1::nat))) \<le> 1" for n
    by (induction n) simp_all
  ultimately have "consistentComparator ?stats"
    by (simp add: consistentComparator_def)
  moreover have "sortBy compareUsage ?stats = ?stats"
    by (intro sortBy_already) (auto simp: countedOnce_def compareUsage_def)
  ultimately have sorted: "sortEntries engineSort ?stats = ?stats"
    by (simp add: sortEntries_def)
  have top: "take 100 ?stats = countedOnce 100 its"
    using assms(2) by (simp add: countedOnce_def take_map min_def)
  have dist: "distinct (map fst (countedOnce 100 its))"
    using assms(1) by (simp add: countedOnce_def comp_def distinct_take)
  have kept: "objectFromEntries (countedOnce 100 its) = countedOnce 100 its"
    using fold_mapSet_distinct [OF dist, of "[]"] by (simp add: objectFromEntries_def)
  have "1000 < length ?stats"
    using assms(2) by (simp add: countedOnce_def)
  then show ?thesis
    using plain sorted top by (simp add: counted trimUsage_def Let_def kept inherited)
qed

section \<open>Sending (SMTPManager.sendMail, sendMailWithRetry)\<close>

text \<open>
  What a send depends on outside the coordinator's tables: the address check
  (\<open>isValidEmail\<close>), \<open>Math.random\<close>, the mail-transport primitive (\<open>None\<close> when the message
  is accepted, the error code otherwise) and the time it takes, and what timers and other
  tasks do to the tables while this send is suspended in a sleep of the given length.
\<close>

record Environment =
  validAddress :: "string \<Rightarrow> bool"
  randomNat :: "SMTPManager \<Rightarrow> nat"
  transport :: "SMTPManager \<Rightarrow> nat \<Rightarrow> transport_code option"
  latency :: "SMTPManager \<Rightarrow> nat \<Rightarrow> int"
  whileAsleep :: "int \<Rightarrow> SMTPManager \<Rightarrow> SMTPManager"

text \<open>
  \<open>getNextSmtpIndex\<close>. The final test that the selected index occurs in the candidate
  list always succeeds, the index being taken from that list.
\<close>

definition getNextSmtpIndex ::
    "Config \<Rightarrow> Environment \<Rightarrow> SMTPManager \<Rightarrow> error + (nat \<times> SMTPManager)" where
  "getNextSmtpIndex cfg env s =
     (case getAvailableSMTPs cfg s of
        Inl e \<Rightarrow> Inl e
      | Inr availableSmtps \<Rightarrow>
          if availableSmtps = [] then Inl NoAvailableServers
          else if rotation_random cfg then
            Inr (index (availableSmtps ! (randomNat env s mod length availableSmtps)), s)
          else
            (let current = currentSmtpIndex s;
                 normalizedIndex = current mod length availableSmtps
             in Inr (index (availableSmtps ! normalizedIndex),
                     s\<lparr> currentSmtpIndex := (current + 1) mod length availableSmtps \<rparr>)))"

text \<open>\<open>getNextSMTP\<close>, as far as the choice of the server goes.\<close>

definition getNextSMTP ::
    "Config \<Rightarrow> Environment \<Rightarrow> SMTPManager \<Rightarrow> error + (nat \<times> SMTPManager)" where
  "getNextSMTP cfg env s =
     (if \<not> rotationEnabled s \<or> length (smtpConfigs s) = 1 then Inr (0, s)
      else getNextSmtpIndex cfg env s)"

text \<open>
  What one \<open>sendMail\<close> call did, oldest first: the rate-limit checks with their results,
  the sleeps it awaited (milliseconds), the hand-overs of the message to the transport of
  a server, and, for \<open>sendMailWithRetry\<close>, the attempts it started.
\<close>

datatype event = Checked nat RateLimitCheck | Slept int | Transmitted nat | Attempted nat

fun withEvents ::
    "event list \<Rightarrow> (error + nat) \<times> event list \<times> SMTPManager
       \<Rightarrow> (error + nat) \<times> event list \<times> SMTPManager" where
  "withEvents evs (res, trace, s) = (res, evs @ trace, s)"

text \<open>
  The \<open>catch\<close> block of \<open>sendMail\<close>: roll the counter back, count the failure, rethrow.
  The error code only selects a log line.
\<close>

definition sendFailed ::
    "Config \<Rightarrow> nat \<Rightarrow> error \<Rightarrow> SMTPManager \<Rightarrow> (error + nat) \<times> event list \<times> SMTPManager" where
  "sendFailed cfg selectedSmtpIndex err s =
     (case rollbackRateLimit cfg selectedSmtpIndex s of
        Inl e \<Rightarrow> (Inl e, [], s)
      | Inr s1 \<Rightarrow>
          (case markSmtpUnhealthy selectedSmtpIndex s1 of
             Inl e \<Rightarrow> (Inl e, [], s1)
           | Inr s2 \<Rightarrow> (Inl err, [], s2)))"

text \<open>
  The \<open>try\<close> block of \<open>sendMail\<close>: the message is handed to the transport of the selected
  server; on success the server is marked healthy with the response time.
\<close>

definition attemptTransmission ::
    "Config \<Rightarrow> Environment \<Rightarrow> nat \<Rightarrow> int \<Rightarrow> SMTPManager
       \<Rightarrow> (error + nat) \<times> event list \<times> SMTPManager" where
  "attemptTransmission cfg env selectedSmtpIndex startTime s =
     (let s1 = s\<lparr> clock := clock s + latency env s selectedSmtpIndex \<rparr>
      in withEvents [Transmitted selectedSmtpIndex]
           (case transport env s selectedSmtpIndex of
              Some code \<Rightarrow> sendFailed cfg selectedSmtpIndex (TransportError code) s1
            | None \<Rightarrow>
                (case markSmtpHealthy selectedSmtpIndex (Some (clock s1 - startTime)) s1 of
                   Inl e \<Rightarrow> sendFailed cfg selectedSmtpIndex e s1
                 | Inr s2 \<Rightarrow> (Inr selectedSmtpIndex, [], s2))))"

text \<open>
  The first part of \<open>sendMail\<close>, up to the decision taken after the rate-limit check:
  throw, sleep and start over with \<open>retryCount + 1\<close>, or go on to the transmission.
\<close>

datatype decision =
    Throw error "event list" SMTPManager
  | Backoff nat RateLimitCheck int nat SMTPManager
  | Proceed nat RateLimitCheck SMTPManager

definition selectAndCheck ::
    "Config \<Rightarrow> Environment \<Rightarrow> string \<Rightarrow> nat option \<Rightarrow> nat \<Rightarrow> SMTPManager \<Rightarrow> decision" where
  "selectAndCheck cfg env to emailNumber retryCount s =
     (if to = [] \<or> \<not> validAddress env to then Throw InvalidAddress [] s
      else
        (let fresh = (emailNumber = None \<or> emailNumber = Some 0);
             s1 = (if fresh then s\<lparr> emailCounter := emailCounter s + 1 \<rparr> else s);
             number = (if fresh then emailCounter s1 else the emailNumber)
         in case getNextSMTP cfg env s1 of
              Inl e \<Rightarrow> Throw e [] s1
            | Inr (selectedSmtpIndex, s2) \<Rightarrow>
                (case checkSmtpRateLimit cfg selectedSmtpIndex s2 of
                   Inl e \<Rightarrow> Throw e [] s2
                 | Inr (rateLimitCheck, s3) \<Rightarrow>
                     if \<not> allowed rateLimitCheck \<and> retryCount \<ge> 5
                     then Throw (RateLimitExceeded retryCount)
                            [Checked selectedSmtpIndex rateLimitCheck] s3
                     else if \<not> allowed rateLimitCheck \<and> waitTime rateLimitCheck > 0
                     then Backoff selectedSmtpIndex rateLimitCheck
                            (min (waitTime rateLimitCheck * 2 ^ retryCount) 30000) number s3
                     else Proceed selectedSmtpIndex rateLimitCheck s3)))"

lemma backoff_below_five:
  "selectAndCheck cfg env to emailNumber retryCount s = Backoff i c ms number s3 \<Longrightarrow> retryCount < 5"
  by (auto simp: selectAndCheck_def Let_def split: if_splits sum.splits prod.splits)

text \<open>
  \<open>sendMail(mailOptions, emailNumber, threadId, retryCount)\<close>: \<open>to\<close> is
  \<open>mailOptions.to\<close>. The result is the error thrown or the server that accepted the
  message, with the events of the call and the tables it leaves. The content of the
  message, its headers, the proxy and the pooled transport object do not reach the tables
  and are left out; the health verifications \<open>sendMail\<close> schedules with \<open>setImmediate\<close>
  run after the call, as one of the other tasks.
\<close>

function sendMail ::
    "Config \<Rightarrow> Environment \<Rightarrow> string \<Rightarrow> nat option \<Rightarrow> nat \<Rightarrow> SMTPManager
       \<Rightarrow> (error + nat) \<times> event list \<times> SMTPManager" where
  "sendMail cfg env to emailNumber retryCount s =
     (case selectAndCheck cfg env to emailNumber retryCount s of
        Throw e evs s1 \<Rightarrow> (Inl e, evs, s1)
      | Backoff selectedSmtpIndex rateLimitCheck ms number s3 \<Rightarrow>
          withEvents [Checked selectedSmtpIndex rateLimitCheck, Slept ms]
            (sendMail cfg env to (Some number) (retryCount + 1) (whileAsleep env ms s3))
      | Proceed selectedSmtpIndex rateLimitCheck s3 \<Rightarrow>
          withEvents [Checked selectedSmtpIndex rateLimitCheck]
            (case incrementSmtpRateLimit cfg selectedSmtpIndex s3 of
               Inl e \<Rightarrow> (Inl e, [], s3)
             | Inr s4 \<Rightarrow> attemptTransmission cfg env selectedSmtpIndex (clock s) s4))"
  by pat_completeness auto
termination
  by (relation "measure (\<lambda>(cfg, env, to, emailNumber, retryCount, s). 5 - retryCount)")
     (auto dest: backoff_below_five)

declare sendMail.simps [simp del]

text \<open>
  \<open>sendMailWithRetry(mailOptions, maxRetries)\<close>: the loop from \<open>attempt\<close> on, with the
  last error caught so far.
\<close>

function retryLoop ::
    "Config \<Rightarrow> Environment \<Rightarrow> string \<Rightarrow> nat \<Rightarrow> nat \<Rightarrow> error option \<Rightarrow> SMTPManager
       \<Rightarrow> (error + nat) \<times> event list \<times> SMTPManager" where
  "retryLoop cfg env to retries attempt lastError s =
     (if attempt \<le> retries then
        (case sendMail cfg env to None 0 s of
           (Inr result, trace, s1) \<Rightarrow> (Inr result, Attempted attempt # trace, s1)
         | (Inl e, trace, s1) \<Rightarrow>
             withEvents (Attempted attempt # trace)
               (if attempt < retries then
                  withEvents [Slept (retryDelay s1 * 2 ^ (attempt - 1))]
                    (retryLoop cfg env to retries (attempt + 1) (Some e)
                       (whileAsleep env (retryDelay s1 * 2 ^ (attempt - 1)) s1))
                else retryLoop cfg env to retries (attempt + 1) (Some e) s1))
      else (Inl (case lastError of None \<Rightarrow> UndefinedThrown | Some e \<Rightarrow> e), [], s))"
  by pat_completeness auto
termination
  by (relation "measure (\<lambda>(cfg, env, to, retries, attempt, lastError, s). Suc retries - attempt)")
     auto

declare retryLoop.simps [simp del]

definition sendMailWithRetry ::
    "Config \<Rightarrow> Environment \<Rightarrow> string \<Rightarrow> nat option \<Rightarrow> SMTPManager
       \<Rightarrow> (error + nat) \<times> event list \<times> SMTPManager" where
  "sendMailWithRetry cfg env to maxRetriesGiven s =
     retryLoop cfg env to (orDefault maxRetriesGiven (maxRetries s)) 1 None s"

fun sleepsOf :: "event list \<Rightarrow> int list" where
  "sleepsOf [] = []"
| "sleepsOf (Slept ms # evs) = ms # sleepsOf evs"
| "sleepsOf (ev # evs) = sleepsOf evs"

fun transmissionsOf :: "event list \<Rightarrow> nat list" where
  "transmissionsOf [] = []"
| "transmissionsOf (Transmitted i # evs) = i # transmissionsOf evs"
| "transmissionsOf (ev # evs) = transmissionsOf evs"

fun checksOf :: "event list \<Rightarrow> (nat \<times> RateLimitCheck) list" where
  "checksOf [] = []"
| "checksOf (Checked i c # evs) = (i, c) # checksOf evs"
| "checksOf (ev # evs) = checksOf evs"

fun attemptsOf :: "event list \<Rightarrow> nat list" where
  "attemptsOf [] = []"
| "attemptsOf (Attempted n # evs) = n # attemptsOf evs"
| "attemptsOf (ev # evs) = attemptsOf evs"

section \<open>Failed sends and the retry wrapper\<close>

lemma sleepsOf_append: "sleepsOf (xs @ ys) = sleepsOf xs @ sleepsOf ys"
  by (induction xs rule: sleepsOf.induct) simp_all

lemma transmissionsOf_append: "transmissionsOf (xs @ ys) = transmissionsOf xs @ transmissionsOf ys"
  by (induction xs rule: transmissionsOf.induct) simp_all

lemma checksOf_append: "checksOf (xs @ ys) = checksOf xs @ checksOf ys"
  by (induction xs rule: checksOf.induct) simp_all

lemma attemptsOf_append: "attemptsOf (xs @ ys) = attemptsOf xs @ attemptsOf ys"
  by (induction xs rule: attemptsOf.induct) simp_all

lemma withEvents_parts:
  "fst (withEvents evs r) = fst r"
  "fst (snd (withEvents evs r)) = evs @ fst (snd r)"
  "snd (snd (withEvents evs r)) = snd (snd r)"
  by (cases r; simp)+

lemma sendFailed_events: "fst (snd (sendFailed cfg i err s)) = []"
  by (simp add: sendFailed_def split: sum.splits)

lemma attemptTransmission_events:
  "fst (snd (attemptTransmission cfg env i startTime s)) = [Transmitted i]"
  by (simp add: attemptTransmission_def Let_def withEvents_parts sendFailed_events
           split: option.splits sum.splits)

lemma selectAndCheck_Throw_events:
  "selectAndCheck cfg env to emailNumber retryCount s = Throw e evs s1 \<Longrightarrow>
   evs = [] \<or> (\<exists>i c. evs = [Checked i c])"
  by (auto simp: selectAndCheck_def Let_def split: if_splits sum.splits prod.splits)

text \<open>One \<open>sendMail\<close> call hands the message to a transport at most once.\<close>

lemma sendMail_transmits_once:
  "length (transmissionsOf (fst (snd (sendMail cfg env to emailNumber retryCount s)))) \<le> 1"
proof (induction cfg env to emailNumber retryCount s rule: sendMail.induct)
  case (1 cfg env to emailNumber retryCount s)
  show ?case
  proof (cases "selectAndCheck cfg env to emailNumber retryCount s")
    case (Throw e evs s1)
    then show ?thesis
      using selectAndCheck_Throw_events [OF Throw] by (subst sendMail.simps) auto
  next
    case (Backoff i c ms number s3)
    then show ?thesis
      using "1.IH" [OF Backoff]
      by (subst sendMail.simps) (simp add: withEvents_parts)
  next
    case (Proceed i c s3)
    then show ?thesis
      by (subst sendMail.simps)
         (simp add: withEvents_parts attemptTransmission_events split: sum.splits)
  qed
qed

lemma sendMail_no_attempt_events:
  "attemptsOf (fst (snd (sendMail cfg env to emailNumber retryCount s))) = []"
proof (induction cfg env to emailNumber retryCount s rule: sendMail.induct)
  case (1 cfg env to emailNumber retryCount s)
  show ?case
  proof (cases "selectAndCheck cfg env to emailNumber retryCount s")
    case (Throw e evs s1)
    then show ?thesis
      using selectAndCheck_Throw_events [OF Throw] by (subst sendMail.simps) auto
  next
    case (Backoff i c ms number s3)
    then show ?thesis
      using "1.IH" [OF Backoff]
      by (subst sendMail.simps) (simp add: withEvents_parts)
  next
    case (Proceed i c s3)
    then show ?thesis
      by (subst sendMail.simps)
         (simp add: withEvents_parts attemptTransmission_events split: sum.splits)
  qed
qed

text \<open>
  A transport error of any code is rethrown by the \<open>try\<close>/\<open>catch\<close> of \<open>sendMail\<close> after
  that one hand-over.
\<close>

lemma transport_error_rethrown:
  assumes "transport env s i = Some code"
      and "i < length (smtpHealth s)"
      and "rateLimit_enabled cfg \<longrightarrow> i < length (perSmtpRateLimiting s)"
  shows "fst (attemptTransmission cfg env i startTime s) = Inl (TransportError code)"
  using assms
  by (simp add: attemptTransmission_def Let_def withEvents_parts sendFailed_def
                rollbackRateLimit_def markSmtpUnhealthy_def modifyRate_def modifyHealth_def)

text \<open>
  When the loop of \<open>sendMailWithRetry\<close> ends in an error, it has started every attempt
  from the current one up to \<open>retries\<close>, whatever the errors were.
\<close>

lemma retryLoop_attempts:
  "fst (retryLoop cfg env to retries attempt lastError s) = Inl e \<Longrightarrow>
   attemptsOf (fst (snd (retryLoop cfg env to retries attempt lastError s)))
     = [attempt ..< Suc retries]"
proof (induction cfg env to retries attempt lastError s rule: retryLoop.induct)
  case (1 cfg env to retries attempt lastError s)
  show ?case
  proof (cases "attempt \<le> retries")
    case False
    then show ?thesis by (subst retryLoop.simps) simp
  next
    case True
    note le = True
    obtain res trace s1 where r: "sendMail cfg env to None 0 s = (res, trace, s1)"
      by (cases "sendMail cfg env to None 0 s") auto
    have quiet: "attemptsOf trace = []"
      using sendMail_no_attempt_events [of cfg env to None 0 s] r by simp
    show ?thesis
    proof (cases res)
      case (Inr sent)
      then have "fst (retryLoop cfg env to retries attempt lastError s) = Inr sent"
        using le r by (subst retryLoop.simps) simp
      then show ?thesis using "1.prems" by simp
    next
      case (Inl err)
      show ?thesis
      proof (cases "attempt < retries")
        case True
        let ?delay = "retryDelay s1 * 2 ^ (attempt - 1)"
        let ?next = "retryLoop cfg env to retries (attempt + 1) (Some err)
                       (whileAsleep env ?delay s1)"
        have unfold: "retryLoop cfg env to retries attempt lastError s
                = withEvents (Attempted attempt # trace) (withEvents [Slept ?delay] ?next)"
          using le True Inl r by (subst retryLoop.simps) simp
        then have "fst ?next = Inl e"
          using "1.prems" by (simp add: withEvents_parts)
        then have "attemptsOf (fst (snd ?next)) = [attempt + 1 ..< Suc retries]"
          using "1.IH"(1) [OF le r [symmetric] Inl refl True] by simp
        then show ?thesis
          using True
          by (simp add: unfold withEvents_parts attemptsOf_append quiet upt_conv_Cons)
      next
        case False
        let ?next = "retryLoop cfg env to retries (attempt + 1) (Some err) s1"
        have unfold: "retryLoop cfg env to retries attempt lastError s
                = withEvents (Attempted attempt # trace) ?next"
          using le False Inl r by (subst retryLoop.simps) simp
        then have "fst ?next = Inl e"
          using "1.prems" by (simp add: withEvents_parts)
        then have "attemptsOf (fst (snd ?next)) = [attempt + 1 ..< Suc retries]"
          using "1.IH"(2) [OF le r [symmetric] Inl refl False] by simp
        then show ?thesis
          using le
          by (simp add: unfold withEvents_parts attemptsOf_append quiet upt_conv_Cons)
      qed
    qed
  qed
qed

definition quietEnvironment :: Environment where
  "quietEnvironment =
     \<lparr> validAddress = (\<lambda>to. CHR ''@'' \<in> set to),
       randomNat = (\<lambda>s. 0),
       transport = (\<lambda>s i. None),
       latency = (\<lambda>s i. 120),
       whileAsleep = (\<lambda>ms s. s\<lparr> clock := clock s + ms \<rparr>) \<rparr>"

text \<open>An environment in which every server rejects the credentials.\<close>

definition authFailing :: Environment where
  "authFailing = quietEnvironment\<lparr> transport := (\<lambda>s i. Some EAUTH) \<rparr>"

section \<open>The retry policy of the campaign script (sendEmail)\<close>

text \<open>
  The campaign script that drives the coordinator sends every message through
  \<open>sendEmail(recipient, threadId)\<close>, which calls \<open>smtpManager.sendMail\<close> and retries a
  failed send itself. Its retry settings are \<open>config.sending.retry\<close>; the attempts made
  and the time of the first failure are kept per recipient and thread in the two maps
  \<open>global.emailRetries\<close> and \<open>global.emailRetryStartTimes\<close> (a map that does not
  exist yet reads as an empty one).
\<close>

record RetryConfig =
  retry_enabled :: bool
  retry_maxAttempts :: nat
  retry_delayBetweenAttempts :: int

record Campaign =
  emailRetries :: "(string \<times> nat) list"
  emailRetryStartTimes :: "(string \<times> int) list"

text \<open>
  \<open>error.code === "EAUTH" || error.code === "ECONNREFUSED" || error.code === "ENOTFOUND"\<close>:
  the errors \<open>sendEmail\<close> does not retry. The errors \<open>sendMail\<close> throws itself carry
  no code.
\<close>

fun permanentError :: "error \<Rightarrow> bool" where
  "permanentError (TransportError EAUTH) = True"
| "permanentError (TransportError ECONNREFUSED) = True"
| "permanentError (TransportError ENOTFOUND) = True"
| "permanentError e = False"

definition forgetRetries :: "string \<Rightarrow> Campaign \<Rightarrow> Campaign" where
  "forgetRetries retryKey g =
     \<lparr> emailRetries = mapDelete retryKey (emailRetries g),
       emailRetryStartTimes = mapDelete retryKey (emailRetryStartTimes g) \<rparr>"

fun withCampaignEvents ::
    "event list \<Rightarrow> bool \<times> event list \<times> Campaign \<times> SMTPManager
       \<Rightarrow> bool \<times> event list \<times> Campaign \<times> SMTPManager" where
  "withCampaignEvents evs (sent, trace, g, s) = (sent, evs @ trace, g, s)"

text \<open>
  What \<open>sendEmail\<close> decides in its \<open>catch\<close> block after a failed \<open>sendMail\<close>: give up, or
  sleep and send again.
\<close>

datatype retry_decision = GiveUp Campaign | RetryAfter int Campaign

definition afterFailure ::
    "RetryConfig \<Rightarrow> string \<Rightarrow> error \<Rightarrow> int \<Rightarrow> Campaign \<Rightarrow> retry_decision" where
  "afterFailure rc retryKey err now g =
     (if permanentError err then GiveUp g
      else
        (let currentAttempts = (case mapGet retryKey (emailRetries g) of None \<Rightarrow> 0 | Some n \<Rightarrow> n) + 1
         in if retry_enabled rc \<and> currentAttempts < retry_maxAttempts rc then
              (let retryStartTime =
                     (case mapGet retryKey (emailRetryStartTimes g) of
                        None \<Rightarrow> now
                      | Some t \<Rightarrow> if t = 0 then now else t);
                   g1 = g\<lparr> emailRetryStartTimes :=
                             mapSet retryKey retryStartTime (emailRetryStartTimes g) \<rparr>
               in if now - retryStartTime > 300000 then GiveUp (forgetRetries retryKey g1)
                  else RetryAfter
                         (min (retry_delayBetweenAttempts rc * 2 ^ (currentAttempts - 1)) 30000)
                         (g1\<lparr> emailRetries := mapSet retryKey currentAttempts (emailRetries g1) \<rparr>))
            else GiveUp (forgetRetries retryKey g)))"

definition attemptsMade :: "string \<Rightarrow> Campaign \<Rightarrow> nat" where
  "attemptsMade retryKey g = (case mapGet retryKey (emailRetries g) of None \<Rightarrow> 0 | Some n \<Rightarrow> n)"

lemma mapGet_mapSet_same: "mapGet key (mapSet key val m) = Some val"
proof (cases "mapHas key m")
  case True
  have "key \<in> fst ` set m \<Longrightarrow>
        map_of (map (\<lambda>entry. if fst entry = key then (key, val) else entry) m) key = Some val"
    by (induction m) auto
  then show ?thesis
    using True by (simp add: mapGet_def mapSet_def mapHas_def)
next
  case False
  then have "map_of m key = None"
    by (simp add: mapHas_def map_of_eq_None_iff)
  then show ?thesis
    using False by (simp add: mapGet_def mapSet_def map_add_def)
qed

lemma retry_counts_attempt:
  "afterFailure rc retryKey err now g = RetryAfter ms g2 \<Longrightarrow>
   attemptsMade retryKey g < attemptsMade retryKey g2 \<and> attemptsMade retryKey g2 < retry_maxAttempts rc"
  by (auto simp: afterFailure_def Let_def attemptsMade_def mapGet_mapSet_same
           split: if_splits option.splits)

text \<open>
  \<open>sendEmail\<close>, from its \<open>try\<close> on: \<open>to\<close> is the address of the recipient. The result
  says whether the message was sent. Choosing the subject, the sender name and the
  template and building the message come before and do not touch the coordinator.
\<close>

function sendEmail ::
    "RetryConfig \<Rightarrow> Config \<Rightarrow> Environment \<Rightarrow> string \<Rightarrow> string \<Rightarrow> Campaign \<Rightarrow> SMTPManager
       \<Rightarrow> bool \<times> event list \<times> Campaign \<times> SMTPManager" where
  "sendEmail rc cfg env to retryKey g s =
     (case sendMail cfg env to None 0 s of
        (Inr result, trace, s1) \<Rightarrow> (True, trace, g, s1)
      | (Inl err, trace, s1) \<Rightarrow>
          (case afterFailure rc retryKey err (clock s1) g of
             GiveUp g1 \<Rightarrow> (False, trace, g1, s1)
           | RetryAfter backoffDelay g2 \<Rightarrow>
               withCampaignEvents (trace @ [Slept backoffDelay])
                 (sendEmail rc cfg env to retryKey g2 (whileAsleep env backoffDelay s1))))"
  by pat_completeness auto
termination
  by (relation "measure (\<lambda>(rc, cfg, env, to, retryKey, g, s).
                  retry_maxAttempts rc - attemptsMade retryKey g)")
     (auto dest: retry_counts_attempt)

declare sendEmail.simps [simp del]

text \<open>
  \<open>sendEmail\<close> stops at a permanent error: the message has been handed to a transport
  once, by the one \<open>sendMail\<close> call, and is not sent again.
\<close>

lemma campaign_stops_at_permanent_error:
  assumes "sendMail cfg env to None 0 s = (Inl err, trace, s1)" and "permanentError err"
  shows "sendEmail rc cfg env to retryKey g s = (False, trace, g, s1)"
  using assms by (subst sendEmail.simps) (simp add: afterFailure_def)

text \<open>The retry settings the campaign's documentation shows; no retries recorded yet.\<close>

definition retrySettings :: RetryConfig where
  "retrySettings = \<lparr> retry_enabled = True, retry_maxAttempts = 3, retry_delayBetweenAttempts = 5000 \<rparr>"

definition newCampaign :: Campaign where
  "newCampaign = \<lparr> emailRetries = [], emailRetryStartTimes = [] \<rparr>"

text \<open>An environment in which every server times out.\<close>

definition timingOut :: Environment where
  "timingOut = quietEnvironment\<lparr> transport := (\<lambda>s i. Some ETIMEDOUT) \<rparr>"

lemma campaign_retries_other_errors:
  "fst (sendEmail retrySettings exampleConfig timingOut ''ann@example.org'' ''retry_ann''
          newCampaign (initialTables exampleConfig exampleServers 0)) = False
   \<and> transmissionsOf (fst (snd (sendEmail retrySettings exampleConfig timingOut ''ann@example.org''
          ''retry_ann'' newCampaign (initialTables exampleConfig exampleServers 0)))) = [1, 0, 0]
   \<and> sleepsOf (fst (snd (sendEmail retrySettings exampleConfig timingOut ''ann@example.org''
          ''retry_ann'' newCampaign (initialTables exampleConfig exampleServers 0)))) = [5000, 10000]"
  by code_simp

section \<open>Terminal errors and the retry wrapper\<close>

text \<open>
  \<open>sendMailWithRetry\<close> does not look at the error it caught: whenever it ends in an
  error, of any kind, it has started every attempt from 1 to its number of retries.
\<close>

lemma wrapper_retries_every_error:
  assumes "fst (sendMailWithRetry cfg env to maxRetriesGiven s) = Inl e"
  shows "attemptsOf (fst (snd (sendMailWithRetry cfg env to maxRetriesGiven s)))
           = [1 ..< Suc (orDefault maxRetriesGiven (maxRetries s))]"
  using assms retryLoop_attempts [of cfg env to "orDefault maxRetriesGiven (maxRetries s)" 1 None s e]
  by (simp add: sendMailWithRetry_def)

text \<open>
  Claim C7 (an authentication failure, like host-not-found and connection-refused, is
  propagated to the caller without another send attempt, the retry wrapper included), at
  three servers that all reject the credentials. \<open>sendMailWithRetry\<close>, with its
  default of 3 retries, hands the message to a transport three times before it throws the
  authentication error. \<open>sendMail\<close> hands it over once and rethrows, and \<open>sendEmail\<close>,
  the retry path of the campaign script, gives up after that one attempt.
\<close>

theorem terminal_error_is_retried:
  "fst (sendMailWithRetry exampleConfig authFailing ''ann@example.org'' None
          (initialTables exampleConfig exampleServers 0)) = Inl (TransportError EAUTH)
   \<and> transmissionsOf (fst (snd (sendMailWithRetry exampleConfig authFailing ''ann@example.org''
          None (initialTables exampleConfig exampleServers 0)))) = [1, 0, 0]
   \<and> transmissionsOf (fst (snd (sendMail exampleConfig authFailing ''ann@example.org'' None 0
          (initialTables exampleConfig exampleServers 0)))) = [1]
   \<and> fst (sendEmail retrySettings exampleConfig authFailing ''ann@example.org'' ''retry_ann''
          newCampaign (initialTables exampleConfig exampleServers 0)) = False
   \<and> transmissionsOf (fst (snd (sendEmail retrySettings exampleConfig authFailing
          ''ann@example.org'' ''retry_ann'' newCampaign
          (initialTables exampleConfig exampleServers 0)))) = [1]"
  by code_simp


section \<open>The back-off of a rate-limited send\<close>

text \<open>The cooldown durations of the table; no operation of the coordinator changes them.\<close>

definition durationsPositive :: "SMTPManager \<Rightarrow> bool" where
  "durationsPositive s \<longleftrightarrow> list_all (\<lambda>r. 0 < cooldownDuration r) (perSmtpRateLimiting s)"

lemma durationsPositive_modifyRate:
  assumes "durationsPositive s" and "\<And>r. cooldownDuration (f r) = cooldownDuration r"
  shows "durationsPositive (modifyRate i f s)"
proof (cases "i < length (perSmtpRateLimiting s)")
  case True
  have "\<forall>j < length (perSmtpRateLimiting s). 0 < cooldownDuration (perSmtpRateLimiting s ! j)"
    using assms(1) by (simp add: durationsPositive_def list_all_length)
  then have "\<forall>j < length (perSmtpRateLimiting s).
               0 < cooldownDuration ((perSmtpRateLimiting s)[i := f (perSmtpRateLimiting s ! i)] ! j)"
    using assms(2) True by (auto simp: nth_list_update)
  then show ?thesis
    by (simp add: durationsPositive_def list_all_length modifyRate_def)
next
  case False
  then have "length (perSmtpRateLimiting s) \<le> i" by simp
  then show ?thesis
    using assms(1) by (simp add: durationsPositive_def modifyRate_def list_update_beyond)
qed

lemma durationsPositive_fields:
  "durationsPositive (s\<lparr> cooldownTimers := t \<rparr>) = durationsPositive s"
  "durationsPositive (s\<lparr> clock := k \<rparr>) = durationsPositive s"
  "durationsPositive (s\<lparr> emailCounter := n \<rparr>) = durationsPositive s"
  "durationsPositive (s\<lparr> currentSmtpIndex := n \<rparr>) = durationsPositive s"
  by (simp_all add: durationsPositive_def)

lemma durationsPositive_initial:
  "newSMTPManager cfg configs now = Inr s0 \<Longrightarrow> durationsPositive s0"
  by (auto simp: newSMTPManager_def initialTables_def durationsPositive_def Let_def list_all_iff
                 initialRateLimit_def orDefault_def split: if_splits option.splits)

lemma check_keeps_durations:
  assumes "durationsPositive s" and "checkSmtpRateLimit cfg i s = Inr (c, s3)"
  shows "durationsPositive s3"
proof -
  have reset: "durationsPositive (modifyRate i (resetUpdate (clock s)) s)"
    using assms(1) by (intro durationsPositive_modifyRate) (simp_all add: resetUpdate_def)
  have general: "durationsPositive
                   (modifyRate i (resetUpdate k)
                      ((modifyRate i (\<lambda>rateLimit. rateLimit\<lparr> isCoolingDown := False,
                           cooldownStartTime := None, isLimited := False \<rparr>) s)
                        \<lparr> cooldownTimers := t \<rparr>))" for k t
    using assms(1)
    by (intro durationsPositive_modifyRate)
       (simp_all add: resetUpdate_def durationsPositive_fields durationsPositive_modifyRate)
  have put: "durationsPositive
               ((modifyRate i (\<lambda>rateLimit. rateLimit\<lparr> isCoolingDown := True,
                    cooldownStartTime := Some k \<rparr>) s1) \<lparr> cooldownTimers := t \<rparr>)"
    if "durationsPositive s1" for k t s1
    using that by (simp add: durationsPositive_fields durationsPositive_modifyRate)
  show ?thesis
    using assms reset general put [OF assms(1)] put [OF reset]
    by (auto simp: checkSmtpRateLimit_def Let_def removeSMTPFromCooldown_def
                   resetRateLimitCounter_def putSMTPIntoCooldown_def
             split: if_splits sum.splits)
qed




text \<open>
  The cooldown durations stay positive along every history of the rate-limit table, from
  the tables of the constructor on.
\<close>

lemma remove_keeps_durations:
  assumes "durationsPositive s" and "removeSMTPFromCooldown i s = Inr s1"
  shows "durationsPositive s1"
proof -
  have "durationsPositive
          (modifyRate i (resetUpdate k)
             ((modifyRate i (\<lambda>rateLimit. rateLimit\<lparr> isCoolingDown := False,
                  cooldownStartTime := None, isLimited := False \<rparr>) s)
               \<lparr> cooldownTimers := t \<rparr>))" for k t
    using assms(1)
    by (intro durationsPositive_modifyRate)
       (simp_all add: resetUpdate_def durationsPositive_fields durationsPositive_modifyRate)
  then show ?thesis
    using assms(2)
    by (auto simp: removeSMTPFromCooldown_def resetRateLimitCounter_def split: if_splits)
qed

lemma durationsPositive_step:
  assumes "durationsPositive s"
  shows "durationsPositive (rateStep cfg ev s)"
proof (cases ev)
  case (Increment i)
  have "durationsPositive (modifyRate i (incrementUpdate (clock s)) s)"
    using assms by (intro durationsPositive_modifyRate) (simp_all add: incrementUpdate_def)
  then show ?thesis
    using assms Increment by (simp add: unlessThrown_def incrementSmtpRateLimit_def)
next
  case (Rollback i)
  have "durationsPositive (modifyRate i rollbackUpdate s)"
    using assms by (intro durationsPositive_modifyRate) (simp_all add: rollbackUpdate_def)
  then show ?thesis
    using assms Rollback by (simp add: unlessThrown_def rollbackRateLimit_def)
next
  case (WindowTimer i)
  have "durationsPositive (modifyRate i (resetUpdate (clock s)) s)"
    using assms by (intro durationsPositive_modifyRate) (simp_all add: resetUpdate_def)
  then show ?thesis
    using assms WindowTimer by (simp add: unlessThrown_def resetRateLimitCounter_def)
next
  case (CooldownTimer i)
  show ?thesis
  proof (cases "removeSMTPFromCooldown i s")
    case (Inl e)
    then show ?thesis using assms CooldownTimer by (simp add: unlessThrown_def)
  next
    case (Inr s1)
    then have "durationsPositive s1"
      using assms by (rule remove_keeps_durations [rotated])
    then show ?thesis using assms Inr CooldownTimer by (simp add: unlessThrown_def)
  qed
next
  case (Check i)
  show ?thesis
  proof (cases "checkSmtpRateLimit cfg i s")
    case (Inl e)
    then show ?thesis using assms Check by (simp add: unlessThrown_def)
  next
    case (Inr r)
    then have "checkSmtpRateLimit cfg i s = Inr (fst r, snd r)" by simp
    then have "durationsPositive (snd r)"
      using assms by (rule check_keeps_durations [rotated])
    then show ?thesis using Inr Check by (simp add: unlessThrown_def)
  qed
next
  case (Elapse ms)
  then show ?thesis using assms by (simp add: durationsPositive_fields)
qed

lemma durationsPositive_run: "durationsPositive s \<Longrightarrow> durationsPositive (rateRun cfg evs s)"
  by (induction evs arbitrary: s) (simp_all add: durationsPositive_step)













text \<open>
  An environment in which the release timers of the cooldowns fire while a send sleeps:
  after the sleep, the callback of every timer that fell due has run, at its due time.
  (The callbacks of different servers write different records, so their order does not
  matter.)
\<close>

definition cooldownDue :: "nat \<Rightarrow> SMTPManager \<Rightarrow> int" where
  "cooldownDue i s =
     (case cooldownStartTime (perSmtpRateLimiting s ! i) of None \<Rightarrow> 0 | Some t \<Rightarrow> t)
       + cooldownDuration (perSmtpRateLimiting s ! i)"

definition fireCooldownTimer :: "Config \<Rightarrow> nat \<Rightarrow> SMTPManager \<Rightarrow> SMTPManager" where
  "fireCooldownTimer cfg i s =
     (if i \<in> cooldownTimers s \<and> cooldownDue i s \<le> clock s
      then (rateStep cfg (CooldownTimer i) (s\<lparr> clock := cooldownDue i s \<rparr>))\<lparr> clock := clock s \<rparr>
      else s)"

definition timersFiring :: "Config \<Rightarrow> Environment" where
  "timersFiring cfg =
     quietEnvironment
       \<lparr> whileAsleep := (\<lambda>ms s. fold (fireCooldownTimer cfg) [0 ..< length (perSmtpRateLimiting s)]
                                  (s\<lparr> clock := clock s + ms \<rparr>)) \<rparr>"






text \<open>
  Three servers with a cooldown of ten minutes, all cooling down: the sleeps of one send
  add up to two and a half minutes, so that all six of its checks are disallowed. The
  send sleeps five times 30 seconds and throws \<open>Rate limit exceeded after 5 retries\<close>,
  with no transmission.
\<close>

definition slowConfig :: Config where
  "slowConfig = exampleConfig\<lparr> rateLimit_cooldownPeriod := Some 600 \<rparr>"

definition longCooldown :: SMTPManager where
  "longCooldown =
     rateRun slowConfig
       [Increment 0, Increment 0, Check 0, Increment 1, Increment 1, Check 1,
        Increment 2, Increment 2, Check 2]
       (initialTables slowConfig exampleServers 0)"

lemma rate_limit_exhausted:
  "fst (sendMail slowConfig (timersFiring slowConfig) ''ann@example.org'' None 0 longCooldown)
     = Inl (RateLimitExceeded 5)
   \<and> sleepsOf (fst (snd (sendMail slowConfig (timersFiring slowConfig) ''ann@example.org'' None 0
                          longCooldown))) = [30000, 30000, 30000, 30000, 30000]
   \<and> length (checksOf (fst (snd (sendMail slowConfig (timersFiring slowConfig)
                          ''ann@example.org'' None 0 longCooldown)))) = 6
   \<and> transmissionsOf (fst (snd (sendMail slowConfig (timersFiring slowConfig)
                          ''ann@example.org'' None 0 longCooldown))) = []"
  by code_simp

section \<open>Rotation over servers\<close>

text \<open>
  Server selection under the sequential strategy: \<open>n\<close> consecutive \<open>getNextSmtpIndex\<close>
  calls, which change nothing but \<open>currentSmtpIndex\<close>.
\<close>

fun getNextSmtpIndexTimes ::
    "Config \<Rightarrow> Environment \<Rightarrow> nat \<Rightarrow> SMTPManager \<Rightarrow> error + (nat list \<times> SMTPManager)" where
  "getNextSmtpIndexTimes cfg env 0 s = Inr ([], s)"
| "getNextSmtpIndexTimes cfg env (Suc n) s =
     (case getNextSmtpIndex cfg env s of
        Inl e \<Rightarrow> Inl e
      | Inr (selectedIndex, s1) \<Rightarrow>
          (case getNextSmtpIndexTimes cfg env n s1 of
             Inl e \<Rightarrow> Inl e
           | Inr (rest, s2) \<Rightarrow> Inr (selectedIndex # rest, s2)))"

lemma available_ignores_counter:
  "getAvailableSMTPs cfg (s\<lparr> currentSmtpIndex := k \<rparr>) = getAvailableSMTPs cfg s"
proof -
  have entry: "smtpEntry (s\<lparr> currentSmtpIndex := k \<rparr>) = smtpEntry s"
    by (rule ext) (simp add: smtpEntry_def)
  have fields: "rotationEnabled (s\<lparr> currentSmtpIndex := k \<rparr>) = rotationEnabled s"
    "smtpConfigs (s\<lparr> currentSmtpIndex := k \<rparr>) = smtpConfigs s"
    "smtpHealth (s\<lparr> currentSmtpIndex := k \<rparr>) = smtpHealth s"
    "perSmtpRateLimiting (s\<lparr> currentSmtpIndex := k \<rparr>) = perSmtpRateLimiting s"
    by simp_all
  show ?thesis
    by (simp only: getAvailableSMTPs_def entry fields)
qed

lemma getNextSmtpIndexTimes_sequential:
  assumes "getAvailableSMTPs cfg s = Inr candidates" and "candidates \<noteq> []"
      and "\<not> rotation_random cfg"
  shows "getNextSmtpIndexTimes cfg env n s
           = Inr (map (\<lambda>j. index (candidates ! ((currentSmtpIndex s + j) mod length candidates)))
                    [0 ..< n],
                  s\<lparr> currentSmtpIndex :=
                       (if n = 0 then currentSmtpIndex s
                        else (currentSmtpIndex s + n) mod length candidates) \<rparr>)"
  using assms(1)
proof (induction n arbitrary: s)
  case 0
  then show ?case by simp
next
  case (Suc n)
  let ?N = "length candidates"
  let ?s1 = "s\<lparr> currentSmtpIndex := (currentSmtpIndex s + 1) mod ?N \<rparr>"
  have first: "getNextSmtpIndex cfg env s
                 = Inr (index (candidates ! (currentSmtpIndex s mod ?N)), ?s1)"
    using Suc.prems assms(2,3) by (simp add: getNextSmtpIndex_def Let_def)
  have avail: "getAvailableSMTPs cfg ?s1 = Inr candidates"
    using Suc.prems by (simp add: available_ignores_counter)
  have shift: "((currentSmtpIndex s + 1) mod ?N + j) mod ?N = (currentSmtpIndex s + Suc j) mod ?N"
    for j
    by (simp add: mod_add_left_eq)
  have list: "map (\<lambda>j. index (candidates ! ((currentSmtpIndex s + j) mod ?N))) [0 ..< Suc n]
        = index (candidates ! (currentSmtpIndex s mod ?N))
          # map (\<lambda>j. index (candidates ! ((currentSmtpIndex s + Suc j) mod ?N))) [0 ..< n]"
    by (simp add: upt_conv_Cons map_Suc_upt [symmetric] del: upt_Suc)
  have rest: "getNextSmtpIndexTimes cfg env n ?s1
        = Inr (map (\<lambda>j. index (candidates ! ((currentSmtpIndex s + Suc j) mod ?N))) [0 ..< n],
               ?s1\<lparr> currentSmtpIndex :=
                      (if n = 0 then currentSmtpIndex ?s1
                       else (currentSmtpIndex ?s1 + n) mod ?N) \<rparr>)"
    using Suc.IH [OF avail] by (simp add: shift [simplified])
  have state: "?s1\<lparr> currentSmtpIndex :=
                      (if n = 0 then currentSmtpIndex ?s1
                       else (currentSmtpIndex ?s1 + n) mod ?N) \<rparr>
        = s\<lparr> currentSmtpIndex := (currentSmtpIndex s + Suc n) mod ?N \<rparr>"
    using shift [of n] by (cases "n = 0") simp_all
  show ?case
    by (simp only: getNextSmtpIndexTimes.simps first sum.case prod.case rest list state
                   nat.simps if_False)
qed

text \<open>
  With a candidate list of N servers that stays as it is, N consecutive selections under
  the sequential strategy visit every candidate once, in the order of the list from the
  current position on.
\<close>

lemma server_selection_visits_each_once:
  assumes "getAvailableSMTPs cfg s = Inr candidates" and "candidates \<noteq> []"
      and "\<not> rotation_random cfg"
  shows "map_sum id fst (getNextSmtpIndexTimes cfg env (length candidates) s)
           = Inr (map index (rotate (currentSmtpIndex s mod length candidates) candidates))"
proof -
  have "map (\<lambda>j. candidates ! ((currentSmtpIndex s + j) mod length candidates))
          [0 ..< length candidates]
        = rotate (currentSmtpIndex s mod length candidates) candidates"
    using assms(2) rotation_by_index [of "currentSmtpIndex s mod length candidates" candidates]
    by (simp add: mod_add_left_eq)
  then have "map index
               (map (\<lambda>j. candidates ! ((currentSmtpIndex s + j) mod length candidates))
                  [0 ..< length candidates])
        = map index (rotate (currentSmtpIndex s mod length candidates) candidates)"
    by (rule arg_cong)
  then have "map (\<lambda>j. index (candidates ! ((currentSmtpIndex s + j) mod length candidates)))
          [0 ..< length candidates]
        = map index (rotate (currentSmtpIndex s mod length candidates) candidates)"
    by (simp add: comp_def)
  then show ?thesis
    using getNextSmtpIndexTimes_sequential [OF assms, of env "length candidates"] by simp
qed

end
